theory Spec2Isabelle
  imports Main "HOL-Library.Word" "HOL-Library.Multiset" "HOL-Library.Sublist"
begin

section \<open>Strings and thrown values\<close>

text \<open>
  A JavaScript string is a sequence of 16-bit UTF-16 code units. String literals of the
  source are ASCII; \<open>js\<close> embeds them.
\<close>

type_synonym jschar = "16 word"
type_synonym jsstring = "jschar list"

definition js :: "string \<Rightarrow> jsstring" where
  "js s = map of_char s"

text \<open>
  A thrown value is either an \<open>Error\<close> object carrying a message or some other value.
  The source reads it as
  \<^verbatim>\<open>itemError instanceof Error ? itemError.message : 'Unknown error'\<close>.
\<close>

datatype thrown = Error jsstring | NonError

definition message_of :: "thrown \<Rightarrow> jsstring" where
  "message_of t = (case t of Error m \<Rightarrow> m | NonError \<Rightarrow> js ''Unknown error'')"

section \<open>The batch engine: \<open>EmailService.processBatches\<close>\<close>

text \<open>
  \<^verbatim>\<open>Array.prototype.slice(start, end)\<close> on integer arguments: a negative index counts
  from the end, both indices are clamped to the array, and an empty range gives \<open>[]\<close>.
\<close>

definition slice :: "'a list \<Rightarrow> int \<Rightarrow> int \<Rightarrow> 'a list" where
  "slice xs start end =
     (let len = int (length xs);
          k = (if start < 0 then max (len + start) 0 else min start len);
          final = (if end < 0 then max (len + end) 0 else min end len)
      in take (nat (final - k)) (drop (nat k) xs))"

record failure =
  item :: jsstring
  error :: jsstring

record BatchResult =
  successes :: nat
  failures :: "failure list"

text \<open>
  \<open>processFn\<close> is a remote call: it reads and changes a world \<open>'s\<close> and either resolves
  (\<open>None\<close>) or throws (\<open>Some t\<close>). The method is private and generic in the item type;
  both callers (\<open>batchModifyEmails\<close>, \<open>batchDeleteEmails\<close>) pass message ids, which are
  strings, so \<^verbatim>\<open>String(item)\<close> is \<open>item\<close>.
\<close>

type_synonym 's process_fn = "jsstring list \<Rightarrow> 's \<Rightarrow> thrown option \<times> 's"

text \<open>
  The variables the loop mutates: the two local arrays \<open>successes\<close> and \<open>failures\<close>, the
  world, and the log of the arguments \<open>processFn\<close> has been called with.
\<close>

record 's run =
  successes_acc :: "jsstring list"
  failures_acc :: "failure list"
  world :: 's
  calls :: "jsstring list list"

text \<open>The inner loop of the catch block: \<^verbatim>\<open>for (const item of batch) { try ... catch ... }\<close>.\<close>

fun fallback :: "'s process_fn \<Rightarrow> jsstring list \<Rightarrow> 's run \<Rightarrow> 's run" where
  "fallback processFn [] r = r"
| "fallback processFn (it # rest) r =
     (case processFn [it] (world r) of
        (None, w) \<Rightarrow>
          fallback processFn rest
            (r\<lparr>successes_acc := successes_acc r @ [it], world := w, calls := calls r @ [[it]]\<rparr>)
      | (Some itemError, w) \<Rightarrow>
          fallback processFn rest
            (r\<lparr>failures_acc := failures_acc r @ [\<lparr>item = it, error = message_of itemError\<rparr>],
               world := w, calls := calls r @ [[it]]\<rparr>))"

text \<open>The body of the outer loop: the bulk attempt and its catch block.\<close>

definition process_batch :: "'s process_fn \<Rightarrow> jsstring list \<Rightarrow> 's run \<Rightarrow> 's run" where
  "process_batch processFn batch r =
     (case processFn batch (world r) of
        (None, w) \<Rightarrow>
          r\<lparr>successes_acc := successes_acc r @ batch, world := w, calls := calls r @ [batch]\<rparr>
      | (Some e, w) \<Rightarrow>
          fallback processFn batch (r\<lparr>world := w, calls := calls r @ [batch]\<rparr>))"

text \<open>
  \<^verbatim>\<open>for (let i = 0; i < items.length; i += batchSize)\<close>. The batch size is an integer
  (the callers' input schema admits integers only). The loop need not end, so not
  returning is the value \<open>None\<close>.
\<close>

partial_function (option) batch_loop ::
  "jsstring list \<Rightarrow> int \<Rightarrow> 's process_fn \<Rightarrow> int \<Rightarrow> 's run \<Rightarrow> 's run option" where
  "batch_loop items batchSize processFn i r =
     (if i < int (length items)
      then batch_loop items batchSize processFn (i + batchSize)
             (process_batch processFn (slice items i (i + batchSize)) r)
      else Some r)"

definition initial_run :: "'s \<Rightarrow> 's run" where
  "initial_run w = \<lparr>successes_acc = [], failures_acc = [], world = w, calls = []\<rparr>"

definition processBatches_run ::
  "jsstring list \<Rightarrow> int \<Rightarrow> 's process_fn \<Rightarrow> 's \<Rightarrow> 's run option" where
  "processBatches_run items batchSize processFn w =
     batch_loop items batchSize processFn 0 (initial_run w)"

text \<open>\<^verbatim>\<open>return { successes: successes.length, failures }\<close>\<close>

definition result_of :: "'s run \<Rightarrow> BatchResult" where
  "result_of r = \<lparr>successes = length (successes_acc r), failures = failures_acc r\<rparr>"

definition processBatches ::
  "jsstring list \<Rightarrow> int \<Rightarrow> 's process_fn \<Rightarrow> 's \<Rightarrow> BatchResult option" where
  "processBatches items batchSize processFn w =
     map_option result_of (processBatches_run items batchSize processFn w)"

text \<open>The items a run has recorded, as successes or as failures, with multiplicity.\<close>

definition accounted :: "'s run \<Rightarrow> jsstring multiset" where
  "accounted r = mset (successes_acc r) + mset (map item (failures_acc r))"

text \<open>
  Two actions used as concrete inputs. \<open>ex_apply\<close> throws exactly on the chunk
  \<open>["c","d"]\<close>; \<open>mask_apply\<close> resolves on every bulk call and throws on every call
  with a single item.
\<close>

definition ex_apply :: "unit process_fn" where
  "ex_apply b s = (if b = [js ''c'', js ''d''] then Some (Error (js ''bulk failed'')) else None, s)"

definition mask_apply :: "unit process_fn" where
  "mask_apply b s = (if length b = 1 then Some (Error (js ''not found'')) else None, s)"

section \<open>The message builder: \<open>EmailBuilder\<close>\<close>

subsection \<open>Array and string primitives\<close>

text \<open>\<^verbatim>\<open>Array.prototype.join(sep)\<close> on an array of strings.\<close>

fun join :: "jsstring \<Rightarrow> jsstring list \<Rightarrow> jsstring" where
  "join sep [] = []"
| "join sep [x] = x"
| "join sep (x # y # ys) = x @ sep @ join sep (y # ys)"

text \<open>
  \<^verbatim>\<open>filter(Boolean)\<close> on an array of strings keeps the truthy ones: a string is
  truthy when it is not empty. An optional string is truthy when it is there and not
  empty; an optional array is truthy when it is there.
\<close>

definition truthy :: "jsstring \<Rightarrow> bool" where
  "truthy s = (s \<noteq> [])"

definition truthy_opt :: "jsstring option \<Rightarrow> bool" where
  "truthy_opt v = (case v of None \<Rightarrow> False | Some s \<Rightarrow> truthy s)"

definition filter_Boolean :: "jsstring list \<Rightarrow> jsstring list" where
  "filter_Boolean parts = filter truthy parts"

definition crlf :: jsstring where
  "crlf = [0x0D, 0x0A]"

definition dquote :: jsstring where
  "dquote = [0x22]"

subsection \<open>Address validation (\<open>validation.util\<close>)\<close>

text \<open>
  The class \<^verbatim>\<open>\s\<close> of a JavaScript regular expression: the white space and line
  terminator code units.
\<close>

definition is_space :: "jschar \<Rightarrow> bool" where
  "is_space c =
     (c \<in> set [0x09, 0x0A, 0x0B, 0x0C, 0x0D, 0x20, 0xA0, 0x1680, 0x2028, 0x2029,
                0x202F, 0x205F, 0x3000, 0xFEFF]
      \<or> (0x2000 \<le> c \<and> c \<le> 0x200A))"

text \<open>The class \<^verbatim>\<open>[^\s@]\<close>.\<close>

definition addr_char :: "jschar \<Rightarrow> bool" where
  "addr_char c = (\<not> is_space c \<and> c \<noteq> 0x40)"

text \<open>
  \<^verbatim>\<open>/^[^\s@]+@[^\s@]+\.[^\s@]+$/.test(email)\<close>. The class excludes \<open>@\<close>, so the first
  group is the text before the first \<open>@\<close>; what follows that \<open>@\<close> must consist of
  class characters and have a dot that is neither its first nor its last character.
\<close>

definition validateEmail :: "jsstring \<Rightarrow> bool" where
  "validateEmail email =
     (let local = takeWhile (\<lambda>c. c \<noteq> 0x40) email;
          rest = dropWhile (\<lambda>c. c \<noteq> 0x40) email
      in local \<noteq> [] \<and> list_all addr_char local \<and> rest \<noteq> [] \<and>
         list_all addr_char (tl rest) \<and> 0x2E \<in> set (butlast (tl (tl rest))))"

text \<open>The language of that regular expression, written out.\<close>

definition email_regex_language :: "jsstring \<Rightarrow> bool" where
  "email_regex_language email =
     (\<exists>l d1 d2. email = l @ [0x40] @ d1 @ [0x2E] @ d2 \<and> l \<noteq> [] \<and> d1 \<noteq> [] \<and> d2 \<noteq> [] \<and>
        list_all addr_char l \<and> list_all addr_char d1 \<and> list_all addr_char d2)"

fun validateEmailArray :: "jsstring list \<Rightarrow> thrown + unit" where
  "validateEmailArray [] = Inr ()"
| "validateEmailArray (email # emails) =
     (if \<not> validateEmail email then Inl (Error (js ''Invalid email address: '' @ email))
      else validateEmailArray emails)"

subsection \<open>Header encoding\<close>

text \<open>
  \<^verbatim>\<open>Buffer.from(text)\<close> is the UTF-8 encoding of the string: the code units are read as
  UTF-16, a surrogate that is not part of a pair is replaced by U+FFFD, and each code
  point is written as one to four bytes.
\<close>

definition is_high :: "jschar \<Rightarrow> bool" where
  "is_high c = (0xD800 \<le> c \<and> c \<le> 0xDBFF)"

definition is_low :: "jschar \<Rightarrow> bool" where
  "is_low c = (0xDC00 \<le> c \<and> c \<le> 0xDFFF)"

definition lone :: "jschar \<Rightarrow> nat" where
  "lone c = (if is_high c \<or> is_low c then 0xFFFD else unat c)"

fun code_points :: "jsstring \<Rightarrow> nat list" where
  "code_points [] = []"
| "code_points [c] = [lone c]"
| "code_points (c # d # rest) =
     (if is_high c \<and> is_low d
      then (0x10000 + (unat c - 0xD800) * 0x400 + (unat d - 0xDC00)) # code_points rest
      else lone c # code_points (d # rest))"

definition utf8_of_cp :: "nat \<Rightarrow> nat list" where
  "utf8_of_cp cp =
     (if cp < 0x80 then [cp]
      else if cp < 0x800 then [0xC0 + cp div 64, 0x80 + cp mod 64]
      else if cp < 0x10000 then [0xE0 + cp div 4096, 0x80 + cp div 64 mod 64, 0x80 + cp mod 64]
      else [0xF0 + cp div 262144, 0x80 + cp div 4096 mod 64, 0x80 + cp div 64 mod 64,
            0x80 + cp mod 64])"

definition Buffer_from :: "jsstring \<Rightarrow> nat list" where
  "Buffer_from text = concat (map utf8_of_cp (code_points text))"

text \<open>\<^verbatim>\<open>buffer.toString('base64')\<close>: three bytes become four characters, with \<open>=\<close> padding.\<close>

definition b64_alphabet :: string where
  "b64_alphabet = ''ABCDEFGHIJKLMNOPQRSTUVWXYZabcdefghijklmnopqrstuvwxyz0123456789+/''"

definition b64_char :: "nat \<Rightarrow> jschar" where
  "b64_char i = of_char (b64_alphabet ! i)"

fun toString_base64 :: "nat list \<Rightarrow> jsstring" where
  "toString_base64 [] = []"
| "toString_base64 [a] = [b64_char (a div 4), b64_char (a mod 4 * 16), 0x3D, 0x3D]"
| "toString_base64 [a, b] =
     [b64_char (a div 4), b64_char (a mod 4 * 16 + b div 16), b64_char (b mod 16 * 4), 0x3D]"
| "toString_base64 (a # b # c # rest) =
     [b64_char (a div 4), b64_char (a mod 4 * 16 + b div 16),
      b64_char (b mod 16 * 4 + c div 64), b64_char (c mod 64)] @ toString_base64 rest"

text \<open>\<^verbatim>\<open>/[^\x00-\x7F]/.test(text)\<close>\<close>

definition non_ascii :: "jsstring \<Rightarrow> bool" where
  "non_ascii text = (\<exists>c \<in> set text. 0x7F < c)"

definition encodeHeader :: "jsstring \<Rightarrow> jsstring" where
  "encodeHeader text =
     (if non_ascii text then js ''=?UTF-8?B?'' @ toString_base64 (Buffer_from text) @ js ''?=''
      else text)"

subsection \<open>Decoding an encoded word\<close>

text \<open>
  The builder has no decoder. This is the reading of an encoded word that the
  specification's round trip refers to: strip the charset tag, decode the base64 payload
  to bytes, read the bytes as UTF-8, and write the code points as UTF-16.
\<close>

definition b64_index :: "jschar \<Rightarrow> nat option" where
  "b64_index c =
     (case filter (\<lambda>i. b64_char i = c) [0..<64] of [] \<Rightarrow> None | i # _ \<Rightarrow> Some i)"

fun base64_decode :: "jsstring \<Rightarrow> nat list option" where
  "base64_decode [] = Some []"
| "base64_decode (c0 # c1 # c2 # c3 # rest) =
     (case (b64_index c0, b64_index c1) of
        (Some s0, Some s1) \<Rightarrow>
          if c2 = 0x3D \<and> c3 = 0x3D \<and> rest = [] then Some [s0 * 4 + s1 div 16]
          else (case b64_index c2 of
                  None \<Rightarrow> None
                | Some s2 \<Rightarrow>
                    if c3 = 0x3D \<and> rest = []
                    then Some [s0 * 4 + s1 div 16, s1 mod 16 * 16 + s2 div 4]
                    else (case b64_index c3 of
                            None \<Rightarrow> None
                          | Some s3 \<Rightarrow>
                              map_option
                                (\<lambda>bs. [s0 * 4 + s1 div 16, s1 mod 16 * 16 + s2 div 4,
                                       s2 mod 4 * 64 + s3] @ bs)
                                (base64_decode rest)))
      | _ \<Rightarrow> None)"
| "base64_decode _ = None"

definition continuation :: "nat \<Rightarrow> bool" where
  "continuation b = (0x80 \<le> b \<and> b < 0xC0)"

fun utf8_decode :: "nat list \<Rightarrow> nat list option" where
  "utf8_decode [] = Some []"
| "utf8_decode (b # bs) =
     (if b < 0x80 then map_option ((#) b) (utf8_decode bs)
      else if 0xC0 \<le> b \<and> b < 0xE0 then
        (case bs of
           c1 # r \<Rightarrow>
             if continuation c1
             then map_option ((#) ((b - 0xC0) * 64 + (c1 - 0x80))) (utf8_decode r)
             else None
         | _ \<Rightarrow> None)
      else if 0xE0 \<le> b \<and> b < 0xF0 then
        (case bs of
           c1 # c2 # r \<Rightarrow>
             if continuation c1 \<and> continuation c2
             then map_option ((#) ((b - 0xE0) * 4096 + (c1 - 0x80) * 64 + (c2 - 0x80)))
                    (utf8_decode r)
             else None
         | _ \<Rightarrow> None)
      else if 0xF0 \<le> b \<and> b < 0xF8 then
        (case bs of
           c1 # c2 # c3 # r \<Rightarrow>
             if continuation c1 \<and> continuation c2 \<and> continuation c3
             then map_option
                    ((#) ((b - 0xF0) * 262144 + (c1 - 0x80) * 4096 + (c2 - 0x80) * 64 + (c3 - 0x80)))
                    (utf8_decode r)
             else None
         | _ \<Rightarrow> None)
      else None)"

definition utf16_of_cp :: "nat \<Rightarrow> jsstring" where
  "utf16_of_cp cp =
     (if cp < 0x10000 then [of_nat cp]
      else [of_nat (0xD800 + (cp - 0x10000) div 0x400), of_nat (0xDC00 + (cp - 0x10000) mod 0x400)])"

definition decode_word :: "jsstring \<Rightarrow> jsstring option" where
  "decode_word w =
     (if take 10 w = js ''=?UTF-8?B?'' \<and> 12 \<le> length w \<and> drop (length w - 2) w = js ''?=''
      then (case base64_decode (take (length w - 12) (drop 10 w)) of
              None \<Rightarrow> None
            | Some bytes \<Rightarrow>
                (case utf8_decode bytes of
                   None \<Rightarrow> None
                 | Some cps \<Rightarrow> Some (concat (map utf16_of_cp cps))))
      else None)"

text \<open>A string is well formed when every surrogate is part of a high-low pair.\<close>

fun well_formed :: "jsstring \<Rightarrow> bool" where
  "well_formed [] = True"
| "well_formed [c] = (\<not> is_high c \<and> \<not> is_low c)"
| "well_formed (c # d # rest) =
     (if is_high c then is_low d \<and> well_formed rest
      else \<not> is_low c \<and> well_formed (d # rest))"

subsection \<open>Parameters and collaborators\<close>

datatype mime_type = TextPlain | TextHtml | MultipartAlternative

record SendEmailParams =
  to :: "jsstring list"
  subject :: jsstring
  body :: jsstring
  htmlBody :: "jsstring option"
  mimeType :: "mime_type option"
  cc :: "jsstring list option"
  bcc :: "jsstring list option"
  threadId :: "jsstring option"
  inReplyTo :: "jsstring option"
  attachments :: "jsstring list option"

text \<open>The options object handed to Nodemailer's \<open>sendMail\<close>.\<close>

record attachment_entry =
  filename :: jsstring
  path :: jsstring

record mail_options =
  mo_from :: jsstring
  mo_to :: jsstring
  mo_cc :: "jsstring option"
  mo_bcc :: "jsstring option"
  mo_subject :: jsstring
  mo_text :: jsstring
  mo_html :: "jsstring option"
  mo_attachments :: "attachment_entry list"
  mo_inReplyTo :: "jsstring option"
  mo_references :: "jsstring option"

text \<open>
  What the builder takes from outside the repository: \<^verbatim>\<open>fs.existsSync\<close>,
  \<^verbatim>\<open>path.basename\<close>, the raw message Nodemailer's stream transport generates (or the
  value it rejects with), and the value of
  \<^verbatim>\<open>Math.random().toString(36).substring(2)\<close> in this call.
\<close>

record platform =
  existsSync :: "jsstring \<Rightarrow> bool"
  basename :: "jsstring \<Rightarrow> jsstring"
  sendMail :: "mail_options \<Rightarrow> thrown + jsstring"
  random_suffix :: jsstring

subsection \<open>The build functions\<close>

text \<open>
  Every build function starts with the same three statements:
  \<^verbatim>\<open>validateEmailArray(params.to); if (params.cc) validateEmailArray(params.cc);
  if (params.bcc) validateEmailArray(params.bcc);\<close>
\<close>

definition validate_recipients :: "SendEmailParams \<Rightarrow> thrown + unit" where
  "validate_recipients params =
     (case validateEmailArray (to params) of
        Inl e \<Rightarrow> Inl e
      | Inr _ \<Rightarrow>
          (case (case cc params of None \<Rightarrow> Inr () | Some xs \<Rightarrow> validateEmailArray xs) of
             Inl e \<Rightarrow> Inl e
           | Inr _ \<Rightarrow>
               (case bcc params of None \<Rightarrow> Inr () | Some xs \<Rightarrow> validateEmailArray xs)))"

definition buildPlainTextEmail :: "SendEmailParams \<Rightarrow> thrown + jsstring" where
  "buildPlainTextEmail params =
     (case validate_recipients params of
        Inl e \<Rightarrow> Inl e
      | Inr _ \<Rightarrow>
          (let encodedSubject = encodeHeader (subject params);
               emailParts = filter_Boolean
                 [js ''From: me'',
                  js ''To: '' @ join (js '', '') (to params),
                  (case cc params of Some xs \<Rightarrow> js ''Cc: '' @ join (js '', '') xs | None \<Rightarrow> []),
                  (case bcc params of Some xs \<Rightarrow> js ''Bcc: '' @ join (js '', '') xs | None \<Rightarrow> []),
                  js ''Subject: '' @ encodedSubject,
                  (if truthy_opt (inReplyTo params)
                   then js ''In-Reply-To: '' @ the (inReplyTo params) else []),
                  (if truthy_opt (inReplyTo params)
                   then js ''References: '' @ the (inReplyTo params) else []),
                  js ''MIME-Version: 1.0'',
                  js ''Content-Type: text/plain; charset=UTF-8'',
                  js ''Content-Transfer-Encoding: 7bit'',
                  [],
                  body params]
           in Inr (join crlf emailParts)))"

text \<open>\<^verbatim>\<open>params.htmlBody || params.body\<close>\<close>

definition htmlBody_or_body :: "SendEmailParams \<Rightarrow> jsstring" where
  "htmlBody_or_body params =
     (if truthy_opt (htmlBody params) then the (htmlBody params) else body params)"

definition buildHTMLEmail :: "SendEmailParams \<Rightarrow> thrown + jsstring" where
  "buildHTMLEmail params =
     (case validate_recipients params of
        Inl e \<Rightarrow> Inl e
      | Inr _ \<Rightarrow>
          (let encodedSubject = encodeHeader (subject params);
               emailParts = filter_Boolean
                 [js ''From: me'',
                  js ''To: '' @ join (js '', '') (to params),
                  (case cc params of Some xs \<Rightarrow> js ''Cc: '' @ join (js '', '') xs | None \<Rightarrow> []),
                  (case bcc params of Some xs \<Rightarrow> js ''Bcc: '' @ join (js '', '') xs | None \<Rightarrow> []),
                  js ''Subject: '' @ encodedSubject,
                  (if truthy_opt (inReplyTo params)
                   then js ''In-Reply-To: '' @ the (inReplyTo params) else []),
                  (if truthy_opt (inReplyTo params)
                   then js ''References: '' @ the (inReplyTo params) else []),
                  js ''MIME-Version: 1.0'',
                  js ''Content-Type: text/html; charset=UTF-8'',
                  js ''Content-Transfer-Encoding: 7bit'',
                  [],
                  htmlBody_or_body params]
           in Inr (join crlf emailParts)))"

definition boundary_of :: "platform \<Rightarrow> jsstring" where
  "boundary_of pf = js ''----=_NextPart_'' @ random_suffix pf"

definition buildMultipartEmail :: "platform \<Rightarrow> SendEmailParams \<Rightarrow> thrown + jsstring" where
  "buildMultipartEmail pf params =
     (case validate_recipients params of
        Inl e \<Rightarrow> Inl e
      | Inr _ \<Rightarrow>
          (let encodedSubject = encodeHeader (subject params);
               boundary = boundary_of pf;
               emailParts = filter_Boolean
                 [js ''From: me'',
                  js ''To: '' @ join (js '', '') (to params),
                  (case cc params of Some xs \<Rightarrow> js ''Cc: '' @ join (js '', '') xs | None \<Rightarrow> []),
                  (case bcc params of Some xs \<Rightarrow> js ''Bcc: '' @ join (js '', '') xs | None \<Rightarrow> []),
                  js ''Subject: '' @ encodedSubject,
                  (if truthy_opt (inReplyTo params)
                   then js ''In-Reply-To: '' @ the (inReplyTo params) else []),
                  (if truthy_opt (inReplyTo params)
                   then js ''References: '' @ the (inReplyTo params) else []),
                  js ''MIME-Version: 1.0'',
                  js ''Content-Type: multipart/alternative; boundary='' @ dquote @ boundary @ dquote,
                  [],
                  js ''--'' @ boundary,
                  js ''Content-Type: text/plain; charset=UTF-8'',
                  js ''Content-Transfer-Encoding: 7bit'',
                  [],
                  body params,
                  [],
                  js ''--'' @ boundary,
                  js ''Content-Type: text/html; charset=UTF-8'',
                  js ''Content-Transfer-Encoding: 7bit'',
                  [],
                  htmlBody_or_body params,
                  [],
                  js ''--'' @ boundary @ js ''--'']
           in Inr (join crlf emailParts)))"

text \<open>
  The loop of \<open>buildEmailWithAttachments\<close> over the attachment paths: it throws at the
  first path that does not exist, and otherwise collects one entry per path.
\<close>

fun prepare_attachments :: "platform \<Rightarrow> jsstring list \<Rightarrow> thrown + attachment_entry list" where
  "prepare_attachments pf [] = Inr []"
| "prepare_attachments pf (filePath # paths) =
     (if \<not> existsSync pf filePath then Inl (Error (js ''File does not exist: '' @ filePath))
      else (case prepare_attachments pf paths of
              Inl e \<Rightarrow> Inl e
            | Inr entries \<Rightarrow> Inr (\<lparr>filename = basename pf filePath, path = filePath\<rparr> # entries)))"

definition buildEmailWithAttachments :: "platform \<Rightarrow> SendEmailParams \<Rightarrow> thrown + jsstring" where
  "buildEmailWithAttachments pf params =
     (case validate_recipients params of
        Inl e \<Rightarrow> Inl e
      | Inr _ \<Rightarrow>
          (if attachments params = None \<or> length (the (attachments params)) = 0
           then Inl (Error (js ''No attachments provided''))
           else (case prepare_attachments pf (the (attachments params)) of
                   Inl e \<Rightarrow> Inl e
                 | Inr entries \<Rightarrow>
                     sendMail pf
                       \<lparr>mo_from = js ''me'',
                        mo_to = join (js '', '') (to params),
                        mo_cc = map_option (join (js '', '')) (cc params),
                        mo_bcc = map_option (join (js '', '')) (bcc params),
                        mo_subject = subject params,
                        mo_text = body params,
                        mo_html = htmlBody params,
                        mo_attachments = entries,
                        mo_inReplyTo = inReplyTo params,
                        mo_references = inReplyTo params\<rparr>)))"

text \<open>\<^verbatim>\<open>params.mimeType || 'text/plain'\<close>\<close>

definition mimeType_or_plain :: "SendEmailParams \<Rightarrow> mime_type" where
  "mimeType_or_plain params = (case mimeType params of None \<Rightarrow> TextPlain | Some m \<Rightarrow> m)"

definition buildEmail :: "platform \<Rightarrow> SendEmailParams \<Rightarrow> thrown + jsstring" where
  "buildEmail pf params =
     (if attachments params \<noteq> None \<and> length (the (attachments params)) > 0
      then buildEmailWithAttachments pf params
      else if truthy_opt (htmlBody params) \<and> mimeType_or_plain params \<noteq> TextPlain
      then buildMultipartEmail pf params
      else if mimeType_or_plain params = TextHtml
      then buildHTMLEmail params
      else buildPlainTextEmail params)"

subsection \<open>Lines of a document\<close>

text \<open>
  The lines of a text, as \<^verbatim>\<open>text.split('\r\n')\<close> gives them: the text is cut at every
  CRLF. A MIME reader finds the parts of a multipart body by looking for the lines that
  are the boundary delimiter.
\<close>

fun split_crlf :: "jsstring \<Rightarrow> jsstring list" where
  "split_crlf [] = [[]]"
| "split_crlf [c] = [[c]]"
| "split_crlf (c # d # cs) =
     (if c = 0x0D \<and> d = 0x0A then [] # split_crlf cs
      else (case split_crlf (d # cs) of l # ls \<Rightarrow> (c # l) # ls | [] \<Rightarrow> [[c]]))"

text \<open>The lines of a part's text; an empty text has none.\<close>

definition text_lines :: "jsstring \<Rightarrow> jsstring list" where
  "text_lines t = (if t = [] then [] else split_crlf t)"

text \<open>
  \<^verbatim>\<open>Math.random().toString(36)\<close> is \<open>0.\<close> followed by digits of base 36, so the suffix
  taken by \<^verbatim>\<open>substring(2)\<close> consists of the characters \<open>0\<close> to \<open>9\<close> and \<open>a\<close> to \<open>z\<close>.
\<close>

definition base36_digit :: "jschar \<Rightarrow> bool" where
  "base36_digit c = ((0x30 \<le> c \<and> c \<le> 0x39) \<or> (0x61 \<le> c \<and> c \<le> 0x7A))"

subsection \<open>Concrete inputs\<close>

text \<open>All addresses of a request, in the order the build functions validate them.\<close>

definition recipients :: "SendEmailParams \<Rightarrow> jsstring list" where
  "recipients p = to p @ (case cc p of None \<Rightarrow> [] | Some xs \<Rightarrow> xs)
                       @ (case bcc p of None \<Rightarrow> [] | Some xs \<Rightarrow> xs)"

text \<open>A valid plain request, and a platform on which one file exists.\<close>

definition p_ex :: SendEmailParams where
  "p_ex = \<lparr>to = [js ''a@b.co''], subject = js ''Hi'', body = js ''Hello'', htmlBody = None,
     mimeType = None, cc = None, bcc = None, threadId = None, inReplyTo = None, attachments = None\<rparr>"

definition pf_ex :: platform where
  "pf_ex = \<lparr>existsSync = (\<lambda>p. p = js ''/tmp/a.txt''), basename = (\<lambda>p. drop 5 p),
            sendMail = (\<lambda>opts. Inr (js ''raw'')), random_suffix = js ''i''\<rparr>"

text \<open>A valid request with an HTML body, sent as multipart/alternative.\<close>

definition p_mp :: SendEmailParams where
  "p_mp = p_ex\<lparr>htmlBody := Some (js ''<p>Hello</p>''), mimeType := Some MultipartAlternative\<rparr>"


section \<open>Properties of the batch engine\<close>

lemma slice_chunk:
  assumes "0 \<le> i" "i < int (length xs)" "1 \<le> b"
  shows "slice xs i (i + b) = take (nat b) (drop (nat i) xs)"
proof -
  have "take (nat (min (i + b) (int (length xs)) - i)) (drop (nat i) xs) = take (nat b) (drop (nat i) xs)"
  proof (cases "i + b \<le> int (length xs)")
    case True
    then show ?thesis using assms by (simp add: min_def)
  next
    case False
    then have "length (drop (nat i) xs) \<le> nat (min (i + b) (int (length xs)) - i)"
      "length (drop (nat i) xs) \<le> nat b"
      using assms by (auto simp: min_def)
    then show ?thesis by simp
  qed
  then show ?thesis using assms by (simp add: slice_def Let_def min_def)
qed

lemma fallback_accounts: "accounted (fallback f b r) = accounted r + mset b"
  by (induction b arbitrary: r) (auto simp: accounted_def split: prod.splits option.splits)

lemma process_batch_accounts: "accounted (process_batch f b r) = accounted r + mset b"
proof (cases "f b (world r)")
  case (Pair t w)
  show ?thesis
  proof (cases t)
    case None
    with Pair show ?thesis by (simp add: process_batch_def accounted_def)
  next
    case (Some e)
    with Pair show ?thesis by (simp add: process_batch_def fallback_accounts) (simp add: accounted_def)
  qed
qed

text \<open>
  With a positive batch size the loop returns from every index \<open>i \<ge> 0\<close>, and what it
  records beyond the run it starts from is the rest of the items from \<open>i\<close> on.
\<close>

lemma batch_loop_accounts:
  assumes "1 \<le> b" "0 \<le> i"
  shows "\<exists>r'. batch_loop xs b f i r = Some r' \<and> accounted r' = accounted r + mset (drop (nat i) xs)"
  using assms(2)
proof (induction "length xs - nat i" arbitrary: i r rule: less_induct)
  case less
  show ?case
  proof (cases "i < int (length xs)")
    case False
    then show ?thesis using less.prems by (subst batch_loop.simps) simp
  next
    case True
    let ?r = "process_batch f (slice xs i (i + b)) r"
    have "length xs - nat (i + b) < length xs - nat i" using True less.prems assms(1) by linarith
    moreover have "0 \<le> i + b" using less.prems assms(1) by simp
    ultimately obtain r' where r': "batch_loop xs b f (i + b) ?r = Some r'"
      "accounted r' = accounted ?r + mset (drop (nat (i + b)) xs)"
      using less.hyps by blast
    have sl: "slice xs i (i + b) = take (nat b) (drop (nat i) xs)"
      using slice_chunk True less.prems assms(1) by blast
    have "nat (i + b) = nat b + nat i" using less.prems assms(1) by linarith
    then have "drop (nat (i + b)) xs = drop (nat b) (drop (nat i) xs)" by simp
    then have "mset (take (nat b) (drop (nat i) xs)) + mset (drop (nat (i + b)) xs) = mset (drop (nat i) xs)"
      by (metis append_take_drop_id mset_append)
    then have "accounted r' = accounted r + mset (drop (nat i) xs)"
      using r'(2) by (simp add: process_batch_accounts sl add.assoc)
    moreover have "batch_loop xs b f i r = Some r'"
      using True r'(1) by (subst batch_loop.simps) simp
    ultimately show ?thesis by blast
  qed
qed

text \<open>
  Claim C1. For every list of items, every batch size \<open>\<ge> 1\<close> and every action (each call
  of which resolves or throws, possibly depending on the world), \<open>processBatches\<close>
  returns a result whose success count plus number of failures is the number of items,
  and the items recorded as successes together with the items of the failures are the
  input items, each as often as it occurs in the input.
\<close>

theorem processBatches_accounts_every_item:
  assumes "1 \<le> batchSize"
  shows "\<exists>r. processBatches_run items batchSize processFn w = Some r
           \<and> processBatches items batchSize processFn w = Some (result_of r)
           \<and> successes (result_of r) + length (failures (result_of r)) = length items
           \<and> mset (successes_acc r) + mset (map item (failures (result_of r))) = mset items"
proof -
  obtain r where r: "batch_loop items batchSize processFn 0 (initial_run w) = Some r"
    "accounted r = accounted (initial_run w) + mset (drop (nat 0) items)"
    using batch_loop_accounts [OF assms, of 0] by blast
  then have m: "mset (successes_acc r) + mset (map item (failures_acc r)) = mset items"
    by (simp add: accounted_def initial_run_def)
  then have "size (mset (successes_acc r) + mset (map item (failures_acc r))) = size (mset items)"
    by simp
  then have "length (successes_acc r) + length (failures_acc r) = length items" by simp
  with r(1) m show ?thesis
    by (simp add: processBatches_def processBatches_run_def result_of_def)
qed

theorem processBatches_accounts_every_item_witness:
  "(1::int) \<le> 2 \<and>
   (\<exists>r. processBatches_run [js ''a'', js ''b'', js ''c''] 2 mask_apply () = Some r
       \<and> processBatches [js ''a'', js ''b'', js ''c''] 2 mask_apply () = Some (result_of r)
       \<and> successes (result_of r) + length (failures (result_of r)) = length [js ''a'', js ''b'', js ''c'']
       \<and> mset (successes_acc r) + mset (map item (failures (result_of r)))
           = mset [js ''a'', js ''b'', js ''c''])"
  using processBatches_accounts_every_item [of 2 "[js ''a'', js ''b'', js ''c'']" mask_apply "()"]
  by simp

lemma fallback_all_ok:
  assumes "\<And>x s. x \<in> set b \<Longrightarrow> fst (f [x] s) = None"
  shows "successes_acc (fallback f b r) = successes_acc r @ b
         \<and> failures_acc (fallback f b r) = failures_acc r"
  using assms
proof (induction b arbitrary: r)
  case Nil
  then show ?case by simp
next
  case (Cons x b)
  obtain s' where "f [x] (world r) = (None, s')"
    using Cons.prems [of x "world r"] by (cases "f [x] (world r)") simp
  then show ?case using Cons.IH Cons.prems by simp
qed

text \<open>
  Claim C2, as the spec states it, fails: the action throws on \<open>["c","d"]\<close> only, so the
  fallback calls on \<open>["c"]\<close> and on \<open>["d"]\<close> resolve. The result does not have success
  count 3, and its failures are not those of c and d.
\<close>

theorem processBatches_example_counterexample:
  "map_option successes
     (processBatches [js ''a'', js ''b'', js ''c'', js ''d'', js ''e''] 2 ex_apply ()) \<noteq> Some 3
   \<and> map_option (map item \<circ> failures)
       (processBatches [js ''a'', js ''b'', js ''c'', js ''d'', js ''e''] 2 ex_apply ())
       \<noteq> Some [js ''c'', js ''d'']"
  by (simp add: processBatches_def processBatches_run_def result_of_def initial_run_def
      batch_loop.simps slice_def process_batch_def ex_apply_def js_def)

text \<open>
  Claim C2, amended. For the items a, b, c, d, e with batch size 2 and every action that
  throws exactly when its argument is \<open>["c","d"]\<close>, \<open>processBatches\<close> returns success count
  5 and no failures: the bulk call on the second chunk throws, and both single-item calls
  of its fallback resolve.
\<close>

theorem processBatches_example:
  assumes "\<And>b s. (fst (processFn b s) = None) = (b \<noteq> [js ''c'', js ''d''])"
  shows "processBatches [js ''a'', js ''b'', js ''c'', js ''d'', js ''e''] 2 processFn w
           = Some \<lparr>successes = 5, failures = []\<rparr>"
proof -
  let ?pb = "process_batch processFn"
  have single: "\<And>x s. fst (processFn [x] s) = None"
    using assms by simp
  have pb: "successes_acc (?pb b r) = successes_acc r @ b \<and> failures_acc (?pb b r) = failures_acc r"
    for b r
  proof (cases "processFn b (world r)")
    case (Pair t s')
    show ?thesis
    proof (cases t)
      case None
      with Pair show ?thesis by (simp add: process_batch_def)
    next
      case (Some e)
      with Pair show ?thesis
        using fallback_all_ok [of b processFn] single by (simp add: process_batch_def)
    qed
  qed
  have "batch_loop [js ''a'', js ''b'', js ''c'', js ''d'', js ''e''] 2 processFn 0 (initial_run w)
          = Some (?pb [js ''e''] (?pb [js ''c'', js ''d''] (?pb [js ''a'', js ''b''] (initial_run w))))"
    by (simp add: batch_loop.simps slice_def)
  then show ?thesis
    by (simp add: processBatches_def processBatches_run_def result_of_def pb initial_run_def)
qed

theorem processBatches_example_witness:
  "(\<forall>b s. (fst (ex_apply b s) = None) = (b \<noteq> [js ''c'', js ''d'']))
   \<and> processBatches [js ''a'', js ''b'', js ''c'', js ''d'', js ''e''] 2 ex_apply ()
       = Some \<lparr>successes = 5, failures = []\<rparr>"
  using processBatches_example [of ex_apply "()"] by (simp add: ex_apply_def)

text \<open>
  Claim C3. When the bulk call on a chunk resolves, every item of the chunk is appended
  to the successes, no failure is recorded, and the bulk call is the only call made for
  the chunk: no call with a single item follows. This holds whatever the action would do
  on the single items, so items that would fail one by one are recorded as successes.
\<close>

theorem chunk_success_masks_items:
  assumes "fst (processFn batch (world r)) = None"
  shows "successes_acc (process_batch processFn batch r) = successes_acc r @ batch
         \<and> failures_acc (process_batch processFn batch r) = failures_acc r
         \<and> calls (process_batch processFn batch r) = calls r @ [batch]"
  using assms by (cases "processFn batch (world r)") (simp add: process_batch_def)

theorem chunk_success_masks_items_witness:
  "fst (mask_apply [js ''a'', js ''b''] (world (initial_run ()))) = None
   \<and> fst (mask_apply [js ''a''] ()) \<noteq> None
   \<and> fst (mask_apply [js ''b''] ()) \<noteq> None
   \<and> successes_acc (process_batch mask_apply [js ''a'', js ''b''] (initial_run ()))
       = [js ''a'', js ''b'']
   \<and> failures_acc (process_batch mask_apply [js ''a'', js ''b''] (initial_run ())) = []
   \<and> calls (process_batch mask_apply [js ''a'', js ''b''] (initial_run ()))
       = [[js ''a'', js ''b'']]"
  using chunk_success_masks_items [of mask_apply "[js ''a'', js ''b'']" "initial_run ()"]
  by (simp add: mask_apply_def initial_run_def)

text \<open>
  A run that returns was never at an index inside the list with a batch size that is
  zero or negative: from there the index never reaches the end of the list.
\<close>

lemma batch_loop_diverges:
  assumes "batch_loop xs b f i r = Some r'"
  shows "\<not> (b \<le> 0 \<and> i < int (length xs))"
proof (rule batch_loop.raw_induct
         [where P = "\<lambda>xs b f i r r'. \<not> (b \<le> 0 \<and> i < int (length xs))", OF _ assms])
  fix loop :: "jsstring list \<Rightarrow> int \<Rightarrow> 'a process_fn \<Rightarrow> int \<Rightarrow> 'a run \<Rightarrow> 'a run option"
  fix xs b f i r r'
  assume IH: "\<And>xs b f i r r'. loop xs b f i r = Some r' \<Longrightarrow> \<not> (b \<le> 0 \<and> i < int (length xs))"
  assume step: "(if i < int (length xs)
      then loop xs b f (i + b) (process_batch f (slice xs i (i + b)) r)
      else Some r) = Some r'"
  show "\<not> (b \<le> 0 \<and> i < int (length xs))"
  proof
    assume bad: "b \<le> 0 \<and> i < int (length xs)"
    then have "loop xs b f (i + b) (process_batch f (slice xs i (i + b)) r) = Some r'"
      using step by simp
    then have "\<not> (b \<le> 0 \<and> i + b < int (length xs))" by (rule IH)
    with bad show False by linarith
  qed
qed

text \<open>
  Claim C10. For every list of items, every action and every integer batch size \<open>\<ge> 1\<close>,
  \<open>processBatches\<close> returns. The hypothesis is needed: with a batch size that is zero
  or negative and at least one item, it never returns.
\<close>

theorem processBatches_terminates_iff_positive:
  "(1 \<le> batchSize \<longrightarrow> (\<exists>res. processBatches items batchSize processFn w = Some res))
   \<and> (batchSize \<le> 0 \<and> items \<noteq> [] \<longrightarrow> processBatches items batchSize processFn w = None)"
proof (intro conjI impI)
  assume "1 \<le> batchSize"
  then obtain r where "batch_loop items batchSize processFn 0 (initial_run w) = Some r"
    using batch_loop_accounts [of batchSize 0 items processFn "initial_run w"] by auto
  then show "\<exists>res. processBatches items batchSize processFn w = Some res"
    by (simp add: processBatches_def processBatches_run_def)
next
  assume bad: "batchSize \<le> 0 \<and> items \<noteq> []"
  have "batch_loop items batchSize processFn 0 (initial_run w) = None"
  proof (cases "batch_loop items batchSize processFn 0 (initial_run w)")
    case (Some r')
    from batch_loop_diverges [OF this] bad show ?thesis by simp
  qed simp
  then show "processBatches items batchSize processFn w = None"
    by (simp add: processBatches_def processBatches_run_def)
qed

theorem processBatches_terminates_iff_positive_witness:
  "(1::int) \<le> 2
   \<and> (\<exists>res. processBatches [js ''a'', js ''b'', js ''c''] 2 ex_apply () = Some res)
   \<and> (0::int) \<le> 0 \<and> [js ''a''] \<noteq> []
   \<and> processBatches [js ''a''] 0 ex_apply () = None
   \<and> (-1::int) \<le> 0
   \<and> processBatches [js ''a''] (-1) ex_apply () = None"
  using processBatches_terminates_iff_positive [of 2 "[js ''a'', js ''b'', js ''c'']" ex_apply "()"]
    processBatches_terminates_iff_positive [of 0 "[js ''a'']" ex_apply "()"]
    processBatches_terminates_iff_positive [of "-1" "[js ''a'']" ex_apply "()"]
  by simp


section \<open>Properties of the message builder\<close>

subsection \<open>Address validation\<close>

lemma addr_char_dot: "addr_char 0x2E"
  by (simp add: addr_char_def is_space_def)

lemma validateEmail_regex: "validateEmail email = email_regex_language email"
proof
  assume v: "validateEmail email"
  define l where "l = takeWhile (\<lambda>c. c \<noteq> 0x40) email"
  define rest where "rest = dropWhile (\<lambda>c. c \<noteq> 0x40) email"
  define d where "d = tl rest"
  from v have l: "l \<noteq> []" "list_all addr_char l" and rest: "rest \<noteq> []"
    and d: "list_all addr_char d" and dot: "0x2E \<in> set (butlast (tl d))"
    by (simp_all add: validateEmail_def Let_def l_def rest_def d_def)
  have "hd rest = 0x40" using rest hd_dropWhile [of "\<lambda>c. c \<noteq> 0x40" email] by (auto simp: rest_def)
  then have rest_eq: "rest = [0x40] @ d" using rest by (cases rest) (simp_all add: d_def)
  have email: "email = l @ rest" by (simp add: l_def rest_def)
  from dot obtain u v where uv: "butlast (tl d) = u @ [0x2E] @ v" by (auto dest: split_list)
  then have "tl d \<noteq> []" by auto
  then have tld: "tl d = (u @ [0x2E] @ v) @ [last (tl d)]" using uv by (metis append_butlast_last_id)
  then have "d \<noteq> []" by auto
  then have deq: "d = (hd d # u) @ [0x2E] @ (v @ [last (tl d)])" using tld by (cases d) auto
  have "list_all addr_char (hd d # u)" "list_all addr_char (v @ [last (tl d)])"
    using d by (subst (asm) deq, simp)+
  with l email rest_eq deq show "email_regex_language email"
    unfolding email_regex_language_def
    by (intro exI [of _ l] exI [of _ "hd d # u"] exI [of _ "v @ [last (tl d)]"]) simp
next
  assume "email_regex_language email"
  then obtain l d1 d2 where e: "email = l @ [0x40] @ d1 @ [0x2E] @ d2"
    and ne: "l \<noteq> []" "d1 \<noteq> []" "d2 \<noteq> []"
    and ok: "list_all addr_char l" "list_all addr_char d1" "list_all addr_char d2"
    unfolding email_regex_language_def by blast
  have "\<forall>c \<in> set l. c \<noteq> 0x40" using ok(1) by (auto simp: list_all_iff addr_char_def)
  then have tw: "takeWhile (\<lambda>c. c \<noteq> 0x40) email = l"
    and dw: "dropWhile (\<lambda>c. c \<noteq> 0x40) email = [0x40] @ d1 @ [0x2E] @ d2"
    by (simp_all add: e)
  have "tl (d1 @ [0x2E] @ d2) = tl d1 @ [0x2E] @ d2" using ne(2) by (cases d1) simp_all
  moreover have "butlast (tl d1 @ [0x2E] @ d2) = tl d1 @ [0x2E] @ butlast d2"
    using ne(3) by (simp add: butlast_append)
  ultimately show "validateEmail email"
    using ne ok by (simp add: validateEmail_def Let_def tw dw addr_char_dot)
qed

lemma validateEmailArray_find:
  "validateEmailArray xs =
     (case find (\<lambda>a. \<not> validateEmail a) xs of
        None \<Rightarrow> Inr ()
      | Some a \<Rightarrow> Inl (Error (js ''Invalid email address: '' @ a)))"
  by (induction xs) simp_all

lemma find_app:
  "find P (xs @ ys) = (case find P xs of None \<Rightarrow> find P ys | Some x \<Rightarrow> Some x)"
  by (induction xs) simp_all

lemma validate_recipients_find:
  "validate_recipients p =
     (case find (\<lambda>a. \<not> validateEmail a)
             (to p @ (case cc p of None \<Rightarrow> [] | Some xs \<Rightarrow> xs)
                   @ (case bcc p of None \<Rightarrow> [] | Some xs \<Rightarrow> xs)) of
        None \<Rightarrow> Inr ()
      | Some a \<Rightarrow> Inl (Error (js ''Invalid email address: '' @ a)))"
  by (simp add: validate_recipients_def validateEmailArray_find find_app
      split: option.splits)

lemmas eval_defs = validate_recipients_def validateEmail_def js_def addr_char_def is_space_def
    encodeHeader_def non_ascii_def filter_Boolean_def truthy_def truthy_opt_def crlf_def

lemma valid_ex: "validateEmail (js ''a@b.co'')" "\<not> validateEmail (js ''nobody'')"
  by (simp_all add: validateEmail_def js_def addr_char_def is_space_def)

lemma validate_recipients_first_invalid:
  assumes "a \<in> set (recipients p)" "\<not> validateEmail a"
  shows "\<exists>a'. a' \<in> set (recipients p) \<and> \<not> validateEmail a'
           \<and> validate_recipients p = Inl (Error (js ''Invalid email address: '' @ a'))"
proof -
  have "find (\<lambda>a. \<not> validateEmail a) (recipients p) \<noteq> None"
    using assms by (auto simp: find_None_iff)
  then obtain a' where f: "find (\<lambda>a. \<not> validateEmail a) (recipients p) = Some a'" by auto
  then have "a' \<in> set (recipients p) \<and> \<not> validateEmail a'"
    by (auto simp: find_Some_iff)
  moreover have "validate_recipients p = Inl (Error (js ''Invalid email address: '' @ a'))"
    using f by (simp add: validate_recipients_find recipients_def)
  ultimately show ?thesis by blast
qed

lemma buildEmail_invalid:
  assumes "validate_recipients p = Inl e"
  shows "buildEmail pf p = Inl e"
  using assms
  by (simp add: buildEmail_def buildEmailWithAttachments_def buildMultipartEmail_def
      buildHTMLEmail_def buildPlainTextEmail_def)

text \<open>
  Claim C5, amended. Whenever some address in to, cc or bcc fails the address check, each
  of the four build functions, and \<open>buildEmail\<close> in whatever mode it selects, throws
  \<open>Invalid email address: a'\<close> for an address \<open>a'\<close> of the request that fails the check,
  and returns no document. (An empty recipient list is not rejected by the builder.)
\<close>

theorem invalid_address_fails_every_build:
  assumes "a \<in> set (recipients p)" "\<not> validateEmail a"
  shows "\<exists>a'. a' \<in> set (recipients p) \<and> \<not> validateEmail a'
           \<and> buildPlainTextEmail p = Inl (Error (js ''Invalid email address: '' @ a'))
           \<and> buildHTMLEmail p = Inl (Error (js ''Invalid email address: '' @ a'))
           \<and> buildMultipartEmail pf p = Inl (Error (js ''Invalid email address: '' @ a'))
           \<and> buildEmailWithAttachments pf p = Inl (Error (js ''Invalid email address: '' @ a'))
           \<and> buildEmail pf p = Inl (Error (js ''Invalid email address: '' @ a'))"
proof -
  obtain a' where a': "a' \<in> set (recipients p)" "\<not> validateEmail a'"
    "validate_recipients p = Inl (Error (js ''Invalid email address: '' @ a'))"
    using validate_recipients_first_invalid [OF assms] by blast
  have "buildPlainTextEmail p = Inl (Error (js ''Invalid email address: '' @ a'))"
    using a'(3) by (simp add: buildPlainTextEmail_def)
  moreover have "buildHTMLEmail p = Inl (Error (js ''Invalid email address: '' @ a'))"
    using a'(3) by (simp add: buildHTMLEmail_def)
  moreover have "buildMultipartEmail pf p = Inl (Error (js ''Invalid email address: '' @ a'))"
    using a'(3) by (simp add: buildMultipartEmail_def)
  moreover have "buildEmailWithAttachments pf p = Inl (Error (js ''Invalid email address: '' @ a'))"
    using a'(3) by (simp add: buildEmailWithAttachments_def)
  moreover have "buildEmail pf p = Inl (Error (js ''Invalid email address: '' @ a'))"
    using a'(3) by (rule buildEmail_invalid)
  ultimately show ?thesis using a'(1,2) by blast
qed

theorem invalid_address_fails_every_build_witness:
  "js ''nobody'' \<in> set (recipients (p_ex\<lparr>cc := Some [js ''nobody'']\<rparr>))
   \<and> \<not> validateEmail (js ''nobody'')
   \<and> (\<exists>a'. a' \<in> set (recipients (p_ex\<lparr>cc := Some [js ''nobody'']\<rparr>)) \<and> \<not> validateEmail a'
           \<and> buildPlainTextEmail (p_ex\<lparr>cc := Some [js ''nobody'']\<rparr>) = Inl (Error (js ''Invalid email address: '' @ a'))
           \<and> buildHTMLEmail (p_ex\<lparr>cc := Some [js ''nobody'']\<rparr>) = Inl (Error (js ''Invalid email address: '' @ a'))
           \<and> buildMultipartEmail pf_ex (p_ex\<lparr>cc := Some [js ''nobody'']\<rparr>) = Inl (Error (js ''Invalid email address: '' @ a'))
           \<and> buildEmailWithAttachments pf_ex (p_ex\<lparr>cc := Some [js ''nobody'']\<rparr>) = Inl (Error (js ''Invalid email address: '' @ a'))
           \<and> buildEmail pf_ex (p_ex\<lparr>cc := Some [js ''nobody'']\<rparr>) = Inl (Error (js ''Invalid email address: '' @ a')))"
proof -
  have m: "js ''nobody'' \<in> set (recipients (p_ex\<lparr>cc := Some [js ''nobody'']\<rparr>))"
    by (simp add: recipients_def p_ex_def)
  show ?thesis
    using m valid_ex(2) invalid_address_fails_every_build [OF m valid_ex(2), of pf_ex] by blast
qed

text \<open>
  Claim C5, as the spec states it, fails for an empty recipient list: the loop of
  \<open>validateEmailArray\<close> has nothing to reject, and the build returns a document with an
  empty \<open>To:\<close> header.
\<close>

theorem empty_recipients_counterexample:
  "to (p_ex\<lparr>to := []\<rparr>) = []
   \<and> buildPlainTextEmail (p_ex\<lparr>to := []\<rparr>)
       = Inr (join crlf [js ''From: me'', js ''To: '', js ''Subject: Hi'', js ''MIME-Version: 1.0'',
                         js ''Content-Type: text/plain; charset=UTF-8'',
                         js ''Content-Transfer-Encoding: 7bit'', js ''Hello''])"
  by (simp add: buildPlainTextEmail_def p_ex_def eval_defs)

text \<open>
  Claim C6 says the header lines are terminated by a blank line before the body. The
  source puts the empty string for that line into the array of parts, and
  \<^verbatim>\<open>filter(Boolean)\<close> removes it together with the absent optional headers: in the
  document of a valid request the body follows the last header line directly.
\<close>

theorem plain_document_has_no_blank_line:
  "validate_recipients p_ex = Inr ()
   \<and> buildPlainTextEmail p_ex
       = Inr (js ''From: me'' @ crlf @ js ''To: a@b.co'' @ crlf @ js ''Subject: Hi'' @ crlf
              @ js ''MIME-Version: 1.0'' @ crlf @ js ''Content-Type: text/plain; charset=UTF-8'' @ crlf
              @ js ''Content-Transfer-Encoding: 7bit'' @ crlf @ js ''Hello'')
   \<and> buildPlainTextEmail p_ex
       \<noteq> Inr (js ''From: me'' @ crlf @ js ''To: a@b.co'' @ crlf @ js ''Subject: Hi'' @ crlf
              @ js ''MIME-Version: 1.0'' @ crlf @ js ''Content-Type: text/plain; charset=UTF-8'' @ crlf
              @ js ''Content-Transfer-Encoding: 7bit'' @ crlf @ crlf @ js ''Hello'')"
  by (simp add: buildPlainTextEmail_def p_ex_def eval_defs)

lemma prepare_attachments_missing:
  "find (\<lambda>q. \<not> existsSync pf q) ps = Some q
     \<Longrightarrow> prepare_attachments pf ps = Inl (Error (js ''File does not exist: '' @ q))"
  by (induction ps) (auto split: if_splits)

text \<open>
  Claim C9, as the spec states it, fails in its last clause when an address is invalid
  as well: the address check runs before the attachment checks, so the error names the
  address and not the missing file.
\<close>

theorem buildEmailWithAttachments_error_counterexample:
  "attachments (p_ex\<lparr>bcc := Some [js ''x@y''], attachments := Some [js ''/tmp/gone.txt'']\<rparr>)
     = Some [js ''/tmp/gone.txt'']
   \<and> \<not> existsSync pf_ex (js ''/tmp/gone.txt'')
   \<and> buildEmailWithAttachments pf_ex
         (p_ex\<lparr>bcc := Some [js ''x@y''], attachments := Some [js ''/tmp/gone.txt'']\<rparr>)
       = Inl (Error (js ''Invalid email address: x@y''))
   \<and> buildEmailWithAttachments pf_ex
         (p_ex\<lparr>bcc := Some [js ''x@y''], attachments := Some [js ''/tmp/gone.txt'']\<rparr>)
       \<noteq> Inl (Error (js ''File does not exist: /tmp/gone.txt''))"
  by (simp add: buildEmailWithAttachments_def p_ex_def pf_ex_def eval_defs)

text \<open>
  Claim C9, amended. \<open>buildEmailWithAttachments\<close> throws and returns no document whenever
  the attachment list is absent or empty or some listed path does not exist. When every
  address is valid, the error is \<open>No attachments provided\<close> in the first case, and in the
  second it names the first listed path that does not exist. When an address is invalid,
  the address check comes first and its error is the one thrown.
\<close>

theorem buildEmailWithAttachments_fails:
  assumes "attachments p = None \<or> attachments p = Some []
           \<or> (\<exists>q \<in> set (the (attachments p)). \<not> existsSync pf q)"
  shows "(\<exists>e. buildEmailWithAttachments pf p = Inl e)
         \<and> (validate_recipients p = Inl e \<longrightarrow> buildEmailWithAttachments pf p = Inl e)
         \<and> (validate_recipients p = Inr () \<and> (attachments p = None \<or> attachments p = Some [])
              \<longrightarrow> buildEmailWithAttachments pf p = Inl (Error (js ''No attachments provided'')))
         \<and> (validate_recipients p = Inr () \<and> attachments p = Some ps \<and> ps \<noteq> []
                   \<and> find (\<lambda>q. \<not> existsSync pf q) ps = Some q
              \<longrightarrow> buildEmailWithAttachments pf p = Inl (Error (js ''File does not exist: '' @ q)))"
proof (intro conjI impI)
  show "\<exists>e. buildEmailWithAttachments pf p = Inl e"
  proof (cases "validate_recipients p")
    case (Inl e)
    then show ?thesis by (simp add: buildEmailWithAttachments_def)
  next
    case (Inr u)
    show ?thesis
    proof (cases "attachments p = None \<or> attachments p = Some []")
      case True
      with Inr show ?thesis by (auto simp: buildEmailWithAttachments_def)
    next
      case False
      then obtain ps where ps: "attachments p = Some ps" "ps \<noteq> []" by auto
      with assms obtain q where "q \<in> set ps" "\<not> existsSync pf q" by auto
      then have "find (\<lambda>q. \<not> existsSync pf q) ps \<noteq> None" by (auto simp: find_None_iff)
      then obtain q' where "find (\<lambda>q. \<not> existsSync pf q) ps = Some q'" by auto
      from prepare_attachments_missing [OF this] Inr ps show ?thesis
        by (simp add: buildEmailWithAttachments_def)
    qed
  qed
next
  assume "validate_recipients p = Inl e"
  then show "buildEmailWithAttachments pf p = Inl e"
    by (simp add: buildEmailWithAttachments_def)
next
  assume "validate_recipients p = Inr () \<and> (attachments p = None \<or> attachments p = Some [])"
  then show "buildEmailWithAttachments pf p = Inl (Error (js ''No attachments provided''))"
    by (auto simp: buildEmailWithAttachments_def)
next
  assume a: "validate_recipients p = Inr () \<and> attachments p = Some ps \<and> ps \<noteq> []
     \<and> find (\<lambda>q. \<not> existsSync pf q) ps = Some q"
  then have "prepare_attachments pf ps = Inl (Error (js ''File does not exist: '' @ q))"
    by (simp add: prepare_attachments_missing)
  with a show "buildEmailWithAttachments pf p = Inl (Error (js ''File does not exist: '' @ q))"
    by (simp add: buildEmailWithAttachments_def)
qed

theorem buildEmailWithAttachments_fails_witness:
  "(\<exists>q \<in> set (the (attachments (p_ex\<lparr>attachments := Some [js ''/tmp/a.txt'', js ''/tmp/gone.txt'']\<rparr>))).
      \<not> existsSync pf_ex q)
   \<and> validate_recipients (p_ex\<lparr>attachments := Some [js ''/tmp/a.txt'', js ''/tmp/gone.txt'']\<rparr>) = Inr ()
   \<and> buildEmailWithAttachments pf_ex (p_ex\<lparr>attachments := Some [js ''/tmp/a.txt'', js ''/tmp/gone.txt'']\<rparr>)
       = Inl (Error (js ''File does not exist: /tmp/gone.txt''))
   \<and> validate_recipients (p_ex\<lparr>attachments := Some []\<rparr>) = Inr ()
   \<and> buildEmailWithAttachments pf_ex (p_ex\<lparr>attachments := Some []\<rparr>)
       = Inl (Error (js ''No attachments provided''))
   \<and> validate_recipients (p_ex\<lparr>to := [js ''nobody''], attachments := Some []\<rparr>)
       = Inl (Error (js ''Invalid email address: nobody''))
   \<and> buildEmailWithAttachments pf_ex (p_ex\<lparr>to := [js ''nobody''], attachments := Some []\<rparr>)
       = Inl (Error (js ''Invalid email address: nobody''))"
proof -
  let ?p = "p_ex\<lparr>attachments := Some [js ''/tmp/a.txt'', js ''/tmp/gone.txt'']\<rparr>"
  let ?bad = "p_ex\<lparr>to := [js ''nobody''], attachments := Some []\<rparr>"
  have v: "validate_recipients ?p = Inr ()" "validate_recipients (p_ex\<lparr>attachments := Some []\<rparr>) = Inr ()"
    by (simp_all add: p_ex_def eval_defs)
  have i: "validate_recipients ?bad = Inl (Error (js ''Invalid email address: nobody''))"
    by (simp add: p_ex_def eval_defs)
  have m: "\<exists>q \<in> set (the (attachments ?p)). \<not> existsSync pf_ex q"
    by (simp add: p_ex_def pf_ex_def js_def)
  have f: "find (\<lambda>q. \<not> existsSync pf_ex q) [js ''/tmp/a.txt'', js ''/tmp/gone.txt''] = Some (js ''/tmp/gone.txt'')"
    by (simp add: pf_ex_def js_def)
  have a: "attachments ?p = Some [js ''/tmp/a.txt'', js ''/tmp/gone.txt'']"
    "attachments (p_ex\<lparr>attachments := Some []\<rparr>) = Some []" "attachments ?bad = Some []"
    by simp_all
  have "buildEmailWithAttachments pf_ex ?p = Inl (Error (js ''File does not exist: '' @ js ''/tmp/gone.txt''))"
    using m v(1) f a(1)
      buildEmailWithAttachments_fails
        [where p = ?p and pf = pf_ex and ps = "[js ''/tmp/a.txt'', js ''/tmp/gone.txt'']"
           and q = "js ''/tmp/gone.txt''"]
    by blast
  then have 1: "buildEmailWithAttachments pf_ex ?p = Inl (Error (js ''File does not exist: /tmp/gone.txt''))"
    by (simp add: js_def)
  have 2: "buildEmailWithAttachments pf_ex (p_ex\<lparr>attachments := Some []\<rparr>)
             = Inl (Error (js ''No attachments provided''))"
    using v(2) a(2)
      buildEmailWithAttachments_fails [where p = "p_ex\<lparr>attachments := Some []\<rparr>" and pf = pf_ex]
    by blast
  have 3: "buildEmailWithAttachments pf_ex ?bad = Inl (Error (js ''Invalid email address: nobody''))"
    using i a(3)
      buildEmailWithAttachments_fails
        [where p = ?bad and pf = pf_ex and e = "Error (js ''Invalid email address: nobody'')"]
    by blast
  from m v i 1 2 3 show ?thesis by blast
qed


subsection \<open>Mode selection and the multipart document\<close>

lemma join_sublist: "x \<in> set xs \<Longrightarrow> sublist x (join sep xs)"
proof (induction sep xs rule: join.induct)
  case (1 sep)
  then show ?case by simp
next
  case (2 sep y)
  then show ?case by simp
next
  case (3 sep a b bs)
  show ?case
  proof (cases "x = a")
    case True
    then show ?thesis by simp
  next
    case False
    with 3 have "sublist x (join sep (b # bs))" by simp
    then obtain ps ss where "join sep (b # bs) = ps @ x @ ss" by (auto simp: sublist_def)
    then have "join sep (a # b # bs) = (a @ sep @ ps) @ x @ ss" by simp
    then show ?thesis unfolding sublist_def by blast
  qed
qed

lemma truthy_js: "truthy (js (c # cs) @ x)"
  by (simp add: truthy_def js_def)

lemma buildMultipartEmail_structure:
  assumes "validate_recipients p = Inr ()"
  shows "buildMultipartEmail pf p =
     Inr (join crlf
       (filter_Boolean
          [js ''From: me'',
           js ''To: '' @ join (js '', '') (to p),
           (case cc p of Some xs \<Rightarrow> js ''Cc: '' @ join (js '', '') xs | None \<Rightarrow> []),
           (case bcc p of Some xs \<Rightarrow> js ''Bcc: '' @ join (js '', '') xs | None \<Rightarrow> []),
           js ''Subject: '' @ encodeHeader (subject p),
           (if truthy_opt (inReplyTo p) then js ''In-Reply-To: '' @ the (inReplyTo p) else []),
           (if truthy_opt (inReplyTo p) then js ''References: '' @ the (inReplyTo p) else []),
           js ''MIME-Version: 1.0'']
        @ [js ''Content-Type: multipart/alternative; boundary='' @ dquote @ boundary_of pf @ dquote]
        @ [js ''--'' @ boundary_of pf,
           js ''Content-Type: text/plain; charset=UTF-8'',
           js ''Content-Transfer-Encoding: 7bit'']
        @ filter_Boolean [body p]
        @ [js ''--'' @ boundary_of pf,
           js ''Content-Type: text/html; charset=UTF-8'',
           js ''Content-Transfer-Encoding: 7bit'']
        @ filter_Boolean [htmlBody_or_body p]
        @ [js ''--'' @ boundary_of pf @ js ''--'']))"
  using assms
  by (simp add: buildMultipartEmail_def Let_def filter_Boolean_def truthy_def js_def)


text \<open>
  Claim C4, amended. \<open>buildEmail\<close> selects by this order: a present, non-empty
  attachment list gives the attachment build; otherwise an HTML body that is present and
  not the empty string, with a content mode other than plain (absent counts as plain),
  gives the multipart build; otherwise content mode html gives the HTML build; otherwise
  the plain build. A valid request with a non-empty HTML body, mode multipart/alternative
  and no attachments yields a document with a text/plain and a text/html part.
\<close>

theorem buildEmail_mode_selection:
  "buildEmail pf p =
     (if (\<exists>ps. attachments p = Some ps \<and> ps \<noteq> []) then buildEmailWithAttachments pf p
      else if (\<exists>h. htmlBody p = Some h \<and> h \<noteq> []) \<and> mimeType p \<notin> {None, Some TextPlain}
      then buildMultipartEmail pf p
      else if mimeType p = Some TextHtml then buildHTMLEmail p
      else buildPlainTextEmail p)
   \<and> (validate_recipients p = Inr () \<and> (\<exists>h. htmlBody p = Some h \<and> h \<noteq> [])
        \<and> mimeType p = Some MultipartAlternative
        \<and> (attachments p = None \<or> attachments p = Some [])
      \<longrightarrow> (\<exists>doc. buildEmail pf p = Inr doc
             \<and> sublist (js ''Content-Type: text/plain; charset=UTF-8'') doc
             \<and> sublist (js ''Content-Type: text/html; charset=UTF-8'') doc))"
proof (intro conjI impI)
  have a: "(attachments p \<noteq> None \<and> length (the (attachments p)) > 0)
             = (\<exists>ps. attachments p = Some ps \<and> ps \<noteq> [])"
    by (cases "attachments p") auto
  have h: "truthy_opt (htmlBody p) = (\<exists>h. htmlBody p = Some h \<and> h \<noteq> [])"
    by (cases "htmlBody p") (auto simp: truthy_opt_def truthy_def)
  have m: "(mimeType_or_plain p \<noteq> TextPlain) = (mimeType p \<notin> {None, Some TextPlain})"
    "(mimeType_or_plain p = TextHtml) = (mimeType p = Some TextHtml)"
    by (cases "mimeType p"; simp add: mimeType_or_plain_def)+
  show "buildEmail pf p =
     (if (\<exists>ps. attachments p = Some ps \<and> ps \<noteq> []) then buildEmailWithAttachments pf p
      else if (\<exists>h. htmlBody p = Some h \<and> h \<noteq> []) \<and> mimeType p \<notin> {None, Some TextPlain}
      then buildMultipartEmail pf p
      else if mimeType p = Some TextHtml then buildHTMLEmail p
      else buildPlainTextEmail p)"
    unfolding buildEmail_def a h m by (rule refl)
next
  assume ex: "validate_recipients p = Inr () \<and> (\<exists>h. htmlBody p = Some h \<and> h \<noteq> [])
        \<and> mimeType p = Some MultipartAlternative
        \<and> (attachments p = None \<or> attachments p = Some [])"
  then have "truthy_opt (htmlBody p)" by (auto simp: truthy_opt_def truthy_def)
  with ex have sel: "buildEmail pf p = buildMultipartEmail pf p"
    by (auto simp: buildEmail_def mimeType_or_plain_def)
  from ex have v: "validate_recipients p = Inr ()" by simp
  show "\<exists>doc. buildEmail pf p = Inr doc
             \<and> sublist (js ''Content-Type: text/plain; charset=UTF-8'') doc
             \<and> sublist (js ''Content-Type: text/html; charset=UTF-8'') doc"
  proof -
    from buildMultipartEmail_structure [OF v, of pf] obtain lines where
      doc: "buildMultipartEmail pf p = Inr (join crlf lines)"
      and pl: "js ''Content-Type: text/plain; charset=UTF-8'' \<in> set lines"
      and ht: "js ''Content-Type: text/html; charset=UTF-8'' \<in> set lines"
      by simp
    have "sublist (js ''Content-Type: text/plain; charset=UTF-8'') (join crlf lines)"
      "sublist (js ''Content-Type: text/html; charset=UTF-8'') (join crlf lines)"
      using pl ht by (simp_all add: join_sublist)
    with sel doc show ?thesis by simp
  qed
qed

text \<open>
  Claim C7, as the spec states it, fails in its last clause: the token is drawn without
  looking at the texts, so a body can contain it.
\<close>

theorem buildMultipartEmail_boundary_counterexample:
  "validate_recipients (p_mp\<lparr>body := js ''----=_NextPart_i''\<rparr>) = Inr ()
   \<and> boundary_of pf_ex = js ''----=_NextPart_i''
   \<and> buildMultipartEmail pf_ex (p_mp\<lparr>body := js ''----=_NextPart_i''\<rparr>)
       = Inr (join crlf
           [js ''From: me'', js ''To: a@b.co'', js ''Subject: Hi'', js ''MIME-Version: 1.0'',
            js ''Content-Type: multipart/alternative; boundary='' @ dquote @ js ''----=_NextPart_i'' @ dquote,
            js ''------=_NextPart_i'',
            js ''Content-Type: text/plain; charset=UTF-8'',
            js ''Content-Transfer-Encoding: 7bit'',
            js ''----=_NextPart_i'',
            js ''------=_NextPart_i'',
            js ''Content-Type: text/html; charset=UTF-8'',
            js ''Content-Transfer-Encoding: 7bit'',
            js ''<p>Hello</p>'',
            js ''------=_NextPart_i--''])
   \<and> sublist (boundary_of pf_ex) (body (p_mp\<lparr>body := js ''----=_NextPart_i''\<rparr>))"
  by (simp add: buildMultipartEmail_def p_mp_def p_ex_def pf_ex_def boundary_of_def
      htmlBody_or_body_def dquote_def eval_defs)


text \<open>
  Claim C4, as the spec states it, fails for an HTML body that is present but empty: the
  source tests \<^verbatim>\<open>params.htmlBody && ...\<close>, the empty string is falsy, and the plain build
  is used although the mode is multipart/alternative.
\<close>

theorem buildEmail_mode_selection_counterexample:
  "htmlBody (p_mp\<lparr>htmlBody := Some []\<rparr>) \<noteq> None
   \<and> mimeType (p_mp\<lparr>htmlBody := Some []\<rparr>) = Some MultipartAlternative
   \<and> attachments (p_mp\<lparr>htmlBody := Some []\<rparr>) = None
   \<and> buildEmail pf_ex (p_mp\<lparr>htmlBody := Some []\<rparr>) = buildPlainTextEmail (p_mp\<lparr>htmlBody := Some []\<rparr>)
   \<and> buildEmail pf_ex (p_mp\<lparr>htmlBody := Some []\<rparr>) \<noteq> buildMultipartEmail pf_ex (p_mp\<lparr>htmlBody := Some []\<rparr>)"
  by (simp add: buildEmail_def buildMultipartEmail_def buildPlainTextEmail_def mimeType_or_plain_def
      p_mp_def p_ex_def pf_ex_def boundary_of_def htmlBody_or_body_def dquote_def eval_defs)

theorem buildEmail_mode_selection_witness:
  "validate_recipients p_mp = Inr () \<and> (\<exists>h. htmlBody p_mp = Some h \<and> h \<noteq> [])
   \<and> mimeType p_mp = Some MultipartAlternative
   \<and> (attachments p_mp = None \<or> attachments p_mp = Some [])
   \<and> buildEmail pf_ex p_mp = buildMultipartEmail pf_ex p_mp
   \<and> (\<exists>doc. buildEmail pf_ex p_mp = Inr doc
             \<and> sublist (js ''Content-Type: text/plain; charset=UTF-8'') doc
             \<and> sublist (js ''Content-Type: text/html; charset=UTF-8'') doc)"
proof -
  have v: "validate_recipients p_mp = Inr ()"
    by (simp add: p_mp_def p_ex_def eval_defs)
  have h: "\<exists>h. htmlBody p_mp = Some h \<and> h \<noteq> []" "mimeType p_mp = Some MultipartAlternative"
    "attachments p_mp = None"
    by (simp_all add: p_mp_def p_ex_def js_def)
  note t = buildEmail_mode_selection [of pf_ex p_mp]
  have sel: "buildEmail pf_ex p_mp = buildMultipartEmail pf_ex p_mp"
    using t h by simp
  have ex: "\<exists>doc. buildEmail pf_ex p_mp = Inr doc
             \<and> sublist (js ''Content-Type: text/plain; charset=UTF-8'') doc
             \<and> sublist (js ''Content-Type: text/html; charset=UTF-8'') doc"
    using t v h by blast
  show ?thesis using v h sel ex by blast
qed


subsection \<open>Header encoding\<close>

lemma b64_alphabet_length: "length b64_alphabet = 64"
  by (simp add: b64_alphabet_def)

lemma b64_alphabet_distinct: "distinct b64_alphabet"
  by (simp add: b64_alphabet_def)

lemma b64_alphabet_ascii: "\<forall>c \<in> set b64_alphabet. (of_char c :: nat) < 128 \<and> (of_char c :: nat) \<noteq> 61"
  by (simp add: b64_alphabet_def)

lemma of_char_less_256: "(of_char c :: nat) < 256"
proof -
  have "(of_char c :: nat) mod 256 < 256" by simp
  then show ?thesis by (simp only: of_char_mod_256)
qed

lemma unat_of_char: "unat (of_char c :: jschar) = of_char c"
proof -
  have "(of_char c :: jschar) = of_nat (of_char c)" by (simp add: of_nat_of_char)
  moreover have "(of_char c :: nat) < 65536" using of_char_less_256 [of c] by linarith
  ultimately show ?thesis by (simp add: unat_of_nat)
qed

lemma unat_b64_char: "unat (b64_char i) = of_char (b64_alphabet ! i)"
  by (simp add: b64_char_def unat_of_char)

lemma b64_char_ascii:
  assumes "i < 64"
  shows "b64_char i \<le> 0x7F" "b64_char i \<noteq> 0x3D"
proof -
  have "b64_alphabet ! i \<in> set b64_alphabet" using assms by (simp add: b64_alphabet_length)
  then have "unat (b64_char i) < 128 \<and> unat (b64_char i) \<noteq> 61"
    using b64_alphabet_ascii by (simp add: unat_b64_char)
  then show "b64_char i \<le> 0x7F" "b64_char i \<noteq> 0x3D"
    by (auto simp: word_le_nat_alt)
qed

lemma b64_char_inj:
  assumes "i < 64" "j < 64" "b64_char i = b64_char j"
  shows "i = j"
proof -
  have "unat (b64_char i) = unat (b64_char j)" using assms(3) by simp
  then have "(of_char (b64_alphabet ! i) :: nat) = of_char (b64_alphabet ! j)"
    by (simp add: unat_b64_char)
  then have "b64_alphabet ! i = b64_alphabet ! j" by simp
  then show ?thesis
    using assms(1,2) b64_alphabet_distinct by (simp add: nth_eq_iff_index_eq b64_alphabet_length)
qed

lemma filter_eq_single: "distinct xs \<Longrightarrow> x \<in> set xs \<Longrightarrow> filter (\<lambda>y. y = x) xs = [x]"
  by (induction xs) (auto simp: filter_empty_conv)

lemma b64_index_char:
  assumes "i < 64"
  shows "b64_index (b64_char i) = Some i"
proof -
  have "filter (\<lambda>j. b64_char j = b64_char i) [0..<64] = filter (\<lambda>j. j = i) [0..<64]"
    using assms by (intro filter_cong refl) (auto dest: b64_char_inj)
  also have "\<dots> = [i]" using assms by (intro filter_eq_single) simp_all
  finally show ?thesis by (simp add: b64_index_def)
qed

lemma sextet_bounds:
  fixes a b c :: nat
  assumes "a < 256" "b < 256" "c < 256"
  shows "a div 4 < 64" "a mod 4 * 16 + b div 16 < 64" "b mod 16 * 4 + c div 64 < 64"
    "c mod 64 < 64" "a mod 4 * 16 < 64" "b mod 16 * 4 < 64"
  using assms by simp_all

lemma sextet_join1:
  fixes a b :: nat
  assumes "b < 256"
  shows "a div 4 * 4 + (a mod 4 * 16 + b div 16) div 16 = a"
proof -
  have "b div 16 < 16" using assms by simp
  then have "(a mod 4 * 16 + b div 16) div 16 = a mod 4" by simp
  then show ?thesis by simp
qed

lemma sextet_join2:
  fixes a b c :: nat
  assumes "b < 256" "c < 256"
  shows "(a mod 4 * 16 + b div 16) mod 16 * 16 + (b mod 16 * 4 + c div 64) div 4 = b"
proof -
  have "b div 16 < 16" "c div 64 < 4" using assms by simp_all
  then have "(a mod 4 * 16 + b div 16) mod 16 = b div 16" "(b mod 16 * 4 + c div 64) div 4 = b mod 16"
    by simp_all
  then show ?thesis by simp
qed

lemma sextet_join3:
  fixes b c :: nat
  assumes "c < 256"
  shows "(b mod 16 * 4 + c div 64) mod 4 * 64 + c mod 64 = c"
proof -
  have "c div 64 < 4" using assms by simp
  then have "(b mod 16 * 4 + c div 64) mod 4 = c div 64" by simp
  then show ?thesis by simp
qed

lemma sextet_join4:
  fixes a b :: nat
  assumes "b < 256"
  shows "(a mod 4 * 16 + b div 16) mod 16 * 16 + (b mod 16 * 4) div 4 = b"
proof -
  have "b div 16 < 16" using assms by simp
  then have "(a mod 4 * 16 + b div 16) mod 16 = b div 16" by simp
  then show ?thesis by simp
qed

lemma sextet_join5:
  fixes a :: nat
  shows "a div 4 * 4 + (a mod 4 * 16) div 16 = a"
  by simp


lemmas sextet_join = sextet_join1 sextet_join2 sextet_join3 sextet_join4 sextet_join5

lemma decode_group:
  assumes "s0 < 64" "s1 < 64" "s2 < 64" "s3 < 64"
  shows "base64_decode (b64_char s0 # b64_char s1 # b64_char s2 # b64_char s3 # tail)
           = map_option (\<lambda>bs. [s0 * 4 + s1 div 16, s1 mod 16 * 16 + s2 div 4, s2 mod 4 * 64 + s3] @ bs)
               (base64_decode tail)"
  using assms by (simp add: b64_index_char b64_char_ascii del: append.simps)

lemma decode_pad1:
  assumes "s0 < 64" "s1 < 64" "s2 < 64"
  shows "base64_decode [b64_char s0, b64_char s1, b64_char s2, 0x3D]
           = Some [s0 * 4 + s1 div 16, s1 mod 16 * 16 + s2 div 4]"
  using assms by (simp add: b64_index_char b64_char_ascii)

lemma decode_pad2:
  assumes "s0 < 64" "s1 < 64"
  shows "base64_decode [b64_char s0, b64_char s1, 0x3D, 0x3D] = Some [s0 * 4 + s1 div 16]"
  using assms by (simp add: b64_index_char b64_char_ascii)

lemma base64_roundtrip:
  assumes "\<forall>b \<in> set bs. b < 256"
  shows "base64_decode (toString_base64 bs) = Some bs"
  using assms
proof (induction bs rule: toString_base64.induct)
  case 1
  then show ?case by simp
next
  case (2 a)
  then have a: "a < 256" by simp
  have "base64_decode [b64_char (a div 4), b64_char (a mod 4 * 16), 0x3D, 0x3D]
          = Some [a div 4 * 4 + (a mod 4 * 16) div 16]"
    using sextet_bounds [OF a a a] by (intro decode_pad2)
  then show ?case by (simp only: toString_base64.simps sextet_join5)
next
  case (3 a b)
  then have a: "a < 256" "b < 256" by simp_all
  have "base64_decode [b64_char (a div 4), b64_char (a mod 4 * 16 + b div 16), b64_char (b mod 16 * 4), 0x3D]
          = Some [a div 4 * 4 + (a mod 4 * 16 + b div 16) div 16,
                  (a mod 4 * 16 + b div 16) mod 16 * 16 + (b mod 16 * 4) div 4]"
    using sextet_bounds [OF a a(1)] sextet_bounds [OF a(2) a] by (intro decode_pad1)
  then show ?case by (simp only: toString_base64.simps sextet_join1 [OF a(2)] sextet_join4 [OF a(2)])
next
  case (4 a b c rest)
  then have a: "a < 256" "b < 256" "c < 256" and r: "\<forall>x \<in> set rest. x < 256" by simp_all
  have "base64_decode (b64_char (a div 4) # b64_char (a mod 4 * 16 + b div 16)
          # b64_char (b mod 16 * 4 + c div 64) # b64_char (c mod 64) # toString_base64 rest)
        = map_option (\<lambda>bs. [a div 4 * 4 + (a mod 4 * 16 + b div 16) div 16,
               (a mod 4 * 16 + b div 16) mod 16 * 16 + (b mod 16 * 4 + c div 64) div 4,
               (b mod 16 * 4 + c div 64) mod 4 * 64 + c mod 64] @ bs)
            (base64_decode (toString_base64 rest))"
    using sextet_bounds [OF a] by (intro decode_group)
  also have "\<dots> = map_option (\<lambda>bs. [a, b, c] @ bs) (Some rest)"
    by (simp only: sextet_join1 [OF a(2)] sextet_join2 [OF a(2,3)] sextet_join3 [OF a(3)] "4.IH" [OF r])
  finally show ?case by (simp del: base64_decode.simps)
qed

lemma base64_ascii:
  assumes "\<forall>b \<in> set bs. b < 256"
  shows "\<not> non_ascii (toString_base64 bs)"
  using assms
proof (induction bs rule: toString_base64.induct)
  case 1
  then show ?case by (simp add: non_ascii_def)
next
  case (2 a)
  then have a: "a < 256" by simp
  show ?case
    using sextet_bounds [OF a a a] by (simp add: non_ascii_def b64_char_ascii not_less)
next
  case (3 a b)
  then have a: "a < 256" "b < 256" by simp_all
  show ?case
    using sextet_bounds [OF a a(1)] sextet_bounds [OF a(2) a]
    by (simp add: non_ascii_def b64_char_ascii not_less)
next
  case (4 a b c rest)
  then have a: "a < 256" "b < 256" "c < 256" and r: "\<forall>x \<in> set rest. x < 256" by simp_all
  show ?case
    using sextet_bounds [OF a] "4.IH" [OF r]
    by (simp add: non_ascii_def b64_char_ascii not_less)
qed

lemma utf8_decode_1:
  assumes "cp < 0x80"
  shows "utf8_decode (cp # rest) = map_option ((#) cp) (utf8_decode rest)"
  using assms by simp

lemma utf8_decode_2:
  assumes "q < 32" "r < 64"
  shows "utf8_decode ((0xC0 + q) # (0x80 + r) # rest) = map_option ((#) (q * 64 + r)) (utf8_decode rest)"
  using assms by (simp add: continuation_def)

lemma utf8_decode_3:
  assumes "q < 16" "r1 < 64" "r2 < 64"
  shows "utf8_decode ((0xE0 + q) # (0x80 + r1) # (0x80 + r2) # rest)
           = map_option ((#) (q * 4096 + r1 * 64 + r2)) (utf8_decode rest)"
  using assms by (simp add: continuation_def)

lemma utf8_decode_4:
  assumes "q < 8" "r1 < 64" "r2 < 64" "r3 < 64"
  shows "utf8_decode ((0xF0 + q) # (0x80 + r1) # (0x80 + r2) # (0x80 + r3) # rest)
           = map_option ((#) (q * 262144 + r1 * 4096 + r2 * 64 + r3)) (utf8_decode rest)"
  using assms by (simp add: continuation_def)

lemma split2: "(cp::nat) div 64 * 64 + cp mod 64 = cp"
  by simp

lemma scale64: "(y::nat) div 64 * 4096 + y mod 64 * 64 = y * 64"
proof -
  have "(y div 64 * 64 + y mod 64) * 64 = y * 64" by (simp only: div_mult_mod_eq)
  then show ?thesis by (simp only: distrib_right mult.assoc)
qed

lemma split3: "(cp::nat) div 4096 * 4096 + cp div 64 mod 64 * 64 + cp mod 64 = cp"
proof -
  define x where "x = cp div 64"
  have "cp div 4096 = x div 64" by (simp add: x_def div_mult2_eq)
  moreover have "x div 64 * 4096 + x mod 64 * 64 = x * 64" by (rule scale64)
  moreover have "x * 64 + cp mod 64 = cp" by (simp add: x_def)
  ultimately show ?thesis unfolding x_def by simp
qed

lemma split4:
  "(cp::nat) div 262144 * 262144 + cp div 4096 mod 64 * 4096 + cp div 64 mod 64 * 64 + cp mod 64 = cp"
proof -
  define x where "x = cp div 64"
  have a: "cp div 4096 = x div 64" "cp div 262144 = x div 4096"
    by (simp_all add: x_def div_mult2_eq)
  have "(x div 4096 * 4096 + x div 64 mod 64 * 64 + x mod 64) * 64 = x * 64" by (simp only: split3)
  then have "x div 4096 * 262144 + x div 64 mod 64 * 4096 + x mod 64 * 64 = x * 64"
    by (simp only: distrib_right mult.assoc)
  moreover have "x * 64 + cp mod 64 = cp" by (simp add: x_def)
  ultimately show ?thesis unfolding a x_def by simp
qed

lemma utf8_decode_cp:
  assumes "cp < 0x110000"
  shows "utf8_decode (utf8_of_cp cp @ rest) = map_option ((#) cp) (utf8_decode rest)"
proof -
  consider "cp < 0x80" | "0x80 \<le> cp" "cp < 0x800" | "0x800 \<le> cp" "cp < 0x10000" | "0x10000 \<le> cp"
    by linarith
  then show ?thesis
  proof cases
    case 1
    then show ?thesis by (simp add: utf8_of_cp_def)
  next
    case 2
    then have e: "utf8_of_cp cp @ rest = (0xC0 + cp div 64) # (0x80 + cp mod 64) # rest"
      by (simp add: utf8_of_cp_def)
    have "cp div 64 < 32" "cp mod 64 < 64" using 2 by simp_all
    from utf8_decode_2 [OF this] show ?thesis by (simp only: e split2)
  next
    case 3
    then have e: "utf8_of_cp cp @ rest
        = (0xE0 + cp div 4096) # (0x80 + cp div 64 mod 64) # (0x80 + cp mod 64) # rest"
      by (simp add: utf8_of_cp_def)
    have "cp div 4096 < 16" "cp div 64 mod 64 < 64" "cp mod 64 < 64" using 3 by simp_all
    from utf8_decode_3 [OF this] show ?thesis by (simp only: e split3)
  next
    case 4
    then have e: "utf8_of_cp cp @ rest
        = (0xF0 + cp div 262144) # (0x80 + cp div 4096 mod 64) # (0x80 + cp div 64 mod 64)
            # (0x80 + cp mod 64) # rest"
      by (simp add: utf8_of_cp_def)
    have "cp div 262144 < 8" "cp div 4096 mod 64 < 64" "cp div 64 mod 64 < 64" "cp mod 64 < 64"
      using assms by simp_all
    from utf8_decode_4 [OF this] show ?thesis by (simp only: e split4)
  qed
qed

lemma utf8_roundtrip:
  assumes "\<forall>cp \<in> set cps. cp < 0x110000"
  shows "utf8_decode (concat (map utf8_of_cp cps)) = Some cps"
  using assms by (induction cps) (simp_all add: utf8_decode_cp del: utf8_decode.simps(2))

lemma utf8_of_cp_bytes:
  assumes "cp < 0x110000"
  shows "\<forall>b \<in> set (utf8_of_cp cp). b < 256"
proof -
  have "cp div 262144 < 8" "cp div 4096 mod 64 < 64" "cp div 64 mod 64 < 64" "cp mod 64 < 64"
    using assms by simp_all
  moreover have "cp < 0x800 \<Longrightarrow> cp div 64 < 32" "cp < 0x10000 \<Longrightarrow> cp div 4096 < 16" by simp_all
  ultimately show ?thesis by (auto simp: utf8_of_cp_def)
qed

lemma is_high_unat: "is_high c = (0xD800 \<le> unat c \<and> unat c \<le> 0xDBFF)"
  by (simp add: is_high_def word_le_nat_alt)

lemma is_low_unat: "is_low c = (0xDC00 \<le> unat c \<and> unat c \<le> 0xDFFF)"
  by (simp add: is_low_def word_le_nat_alt)

lemma unat_jschar_less: "unat (c :: jschar) < 0x10000"
  using unsigned_less [of c] by simp

lemma pair_value:
  fixes h l :: nat
  assumes "l < 0x400"
  shows "(h * 0x400 + l) div 0x400 = h" "(h * 0x400 + l) mod 0x400 = l"
  using assms by simp_all

lemma utf16_single:
  assumes "\<not> is_high c" "\<not> is_low c"
  shows "utf16_of_cp (lone c) = [c]"
  using assms unat_jschar_less [of c] by (simp add: lone_def utf16_of_cp_def)

lemma utf16_pair:
  assumes "is_high c" "is_low d"
  shows "utf16_of_cp (0x10000 + (unat c - 0xD800) * 0x400 + (unat d - 0xDC00)) = [c, d]"
proof -
  define h where "h = unat c - 0xD800"
  define l where "l = unat d - 0xDC00"
  have hl: "l < 0x400" "0xD800 + h = unat c" "0xDC00 + l = unat d"
    using assms by (auto simp: is_high_unat is_low_unat h_def l_def)
  have "utf16_of_cp (0x10000 + h * 0x400 + l)
          = [of_nat (0xD800 + (h * 0x400 + l) div 0x400), of_nat (0xDC00 + (h * 0x400 + l) mod 0x400)]"
    by (simp add: utf16_of_cp_def add.assoc)
  also have "\<dots> = [of_nat (unat c), of_nat (unat d)]"
    by (simp only: pair_value [OF hl(1)] hl)
  finally show ?thesis by (simp add: h_def l_def)
qed

lemma utf16_roundtrip:
  "well_formed str \<Longrightarrow> concat (map utf16_of_cp (code_points str)) = str"
proof (induction str rule: code_points.induct)
  case 1
  then show ?case by simp
next
  case (2 c)
  then show ?case by (simp add: utf16_single)
next
  case (3 c d rest)
  show ?case
  proof (cases "is_high c")
    case True
    with "3.prems" have d: "is_low d" and wf: "well_formed rest" by simp_all
    from "3.IH"(1) True d wf have "concat (map utf16_of_cp (code_points rest)) = rest" by simp
    with True d show ?thesis by (simp add: utf16_pair)
  next
    case False
    with "3.prems" have c: "\<not> is_low c" and wf: "well_formed (d # rest)" by simp_all
    from "3.IH"(2) False wf have "concat (map utf16_of_cp (code_points (d # rest))) = d # rest"
      by simp
    with False c show ?thesis by (simp add: utf16_single)
  qed
qed

lemma lone_bound: "lone c < 0x110000"
  using unat_jschar_less [of c] by (simp add: lone_def)

lemma code_points_bound: "\<forall>cp \<in> set (code_points str). cp < 0x110000"
proof (induction str rule: code_points.induct)
  case 1
  then show ?case by simp
next
  case (2 c)
  then show ?case by (simp add: lone_bound)
next
  case (3 c d rest)
  show ?case
  proof (cases "is_high c \<and> is_low d")
    case True
    then have "unat c - 0xD800 \<le> 0x3FF" "unat d - 0xDC00 \<le> 0x3FF"
      by (auto simp: is_high_unat is_low_unat)
    then have "0x10000 + (unat c - 0xD800) * 0x400 + (unat d - 0xDC00) < 0x110000" by linarith
    with True "3.IH"(1) show ?thesis by simp
  next
    case False
    then have "code_points (c # d # rest) = lone c # code_points (d # rest)" by auto
    with False "3.IH"(2) show ?thesis by (simp only: set_simps ball_simps lone_bound) simp
  qed
qed

lemma Buffer_from_bytes: "\<forall>b \<in> set (Buffer_from str). b < 256"
  using code_points_bound [of str] utf8_of_cp_bytes by (auto simp: Buffer_from_def)

lemma Buffer_from_decode: "utf8_decode (Buffer_from str) = Some (code_points str)"
  unfolding Buffer_from_def by (rule utf8_roundtrip) (rule code_points_bound)

lemma js_tag_length: "length (js ''=?UTF-8?B?'') = 10" "length (js ''?='') = 2"
  by (simp_all add: js_def)

lemma decode_word_tagged:
  "decode_word (js ''=?UTF-8?B?'' @ payload @ js ''?='')
     = (case base64_decode payload of
          None \<Rightarrow> None
        | Some bytes \<Rightarrow>
            (case utf8_decode bytes of
               None \<Rightarrow> None
             | Some cps \<Rightarrow> Some (concat (map utf16_of_cp cps))))"
  by (simp add: decode_word_def js_tag_length)

lemma tags_ascii: "\<not> non_ascii (js ''=?UTF-8?B?'')" "\<not> non_ascii (js ''?='')"
  by (simp_all add: non_ascii_def js_def)

lemma non_ascii_append: "non_ascii (xs @ ys) = (non_ascii xs \<or> non_ascii ys)"
  by (auto simp: non_ascii_def)

text \<open>
  Claim C8, amended. For a string with a code unit above 0x7F, \<open>encodeHeader\<close> returns the
  charset tag, the base64 text of the UTF-8 bytes, and the closing tag; the result has
  no code unit above 0x7F; and if the string is well formed (every surrogate is part of a
  pair), decoding the encoded word gives the string back. A string without a code unit
  above 0x7F is returned unchanged.
\<close>

theorem encodeHeader_roundtrip:
  "(non_ascii str \<longrightarrow>
      encodeHeader str = js ''=?UTF-8?B?'' @ toString_base64 (Buffer_from str) @ js ''?=''
      \<and> \<not> non_ascii (encodeHeader str)
      \<and> (well_formed str \<longrightarrow> decode_word (encodeHeader str) = Some str))
   \<and> (\<not> non_ascii str \<longrightarrow> encodeHeader str = str)"
proof (intro conjI impI)
  assume na: "non_ascii str"
  then show e: "encodeHeader str = js ''=?UTF-8?B?'' @ toString_base64 (Buffer_from str) @ js ''?=''"
    by (simp add: encodeHeader_def)
  show "\<not> non_ascii (encodeHeader str)"
    unfolding e using base64_ascii [OF Buffer_from_bytes, of str]
    by (simp only: non_ascii_append tags_ascii) simp
  assume wf: "well_formed str"
  show "decode_word (encodeHeader str) = Some str"
    unfolding e decode_word_tagged
    by (simp add: base64_roundtrip [OF Buffer_from_bytes] Buffer_from_decode utf16_roundtrip [OF wf])
next
  assume "\<not> non_ascii str"
  then show "encodeHeader str = str" by (simp add: encodeHeader_def)
qed


lemma decode_encodeHeader:
  assumes "non_ascii s"
  shows "decode_word (encodeHeader s) = Some (concat (map utf16_of_cp (code_points s)))"
proof -
  have "encodeHeader s = js ''=?UTF-8?B?'' @ toString_base64 (Buffer_from s) @ js ''?=''"
    using assms by (simp add: encodeHeader_def)
  then show ?thesis
    by (simp add: decode_word_tagged base64_roundtrip [OF Buffer_from_bytes] Buffer_from_decode)
qed

lemma lone_surrogate_non_ascii: "non_ascii [0xD800]"
  by (simp add: non_ascii_def)

lemma lone_surrogate_value: "lone 0xD800 = 0xFFFD"
  by (simp add: lone_def is_high_def)

lemma lone_surrogate_bytes: "Buffer_from [0xD800] = [0xEF, 0xBF, 0xBD]"
  by (simp add: Buffer_from_def lone_surrogate_value utf8_of_cp_def)

text \<open>
  Claim C8, as the spec states it, fails for a string with an unpaired surrogate:
  \<^verbatim>\<open>Buffer.from\<close> writes U+FFFD for it, and that is what decoding gives back.
\<close>

theorem encodeHeader_lone_surrogate_counterexample:
  "non_ascii [0xD800]
   \<and> Buffer_from [0xD800] = [0xEF, 0xBF, 0xBD]
   \<and> decode_word (encodeHeader [0xD800]) = Some [0xFFFD]
   \<and> decode_word (encodeHeader [0xD800]) \<noteq> Some [0xD800]"
proof -
  have "decode_word (encodeHeader [0xD800]) = Some [0xFFFD]"
    by (simp add: decode_encodeHeader [OF lone_surrogate_non_ascii] lone_surrogate_value utf16_of_cp_def)
  with lone_surrogate_non_ascii lone_surrogate_bytes show ?thesis by simp
qed

theorem encodeHeader_roundtrip_witness:
  "non_ascii [0xE9, 0x74, 0xE9] \<and> well_formed [0xE9, 0x74, 0xE9]
   \<and> \<not> non_ascii (encodeHeader [0xE9, 0x74, 0xE9])
   \<and> decode_word (encodeHeader [0xE9, 0x74, 0xE9]) = Some [0xE9, 0x74, 0xE9]
   \<and> \<not> non_ascii (js ''Hi'') \<and> encodeHeader (js ''Hi'') = js ''Hi''"
proof -
  have a: "non_ascii [0xE9, 0x74, 0xE9]" "well_formed [0xE9, 0x74, 0xE9]" "\<not> non_ascii (js ''Hi'')"
    by (simp_all add: non_ascii_def is_high_def is_low_def js_def)
  show ?thesis
    using a encodeHeader_roundtrip [of "[0xE9, 0x74, 0xE9]"] encodeHeader_roundtrip [of "js ''Hi''"]
    by blast
qed


subsection \<open>The parts of the multipart document\<close>

lemma split_crlf_nonempty: "split_crlf s \<noteq> []"
  by (induction s rule: split_crlf.induct) (auto split: list.splits)

lemma split_crlf_Cons:
  assumes "c \<noteq> 0x0D"
  shows "split_crlf (c # s) = (c # hd (split_crlf s)) # tl (split_crlf s)"
proof (cases s)
  case Nil
  then show ?thesis by simp
next
  case (Cons d cs)
  with assms split_crlf_nonempty [of "d # cs"] show ?thesis
    by (auto split: list.splits)
qed

lemma split_crlf_lit_append:
  assumes "0x0D \<notin> set a"
  shows "split_crlf (a @ s) = (a @ hd (split_crlf s)) # tl (split_crlf s)"
  using assms
proof (induction a)
  case Nil
  then show ?case using split_crlf_nonempty [of s] by simp
next
  case (Cons c a)
  then have "c \<noteq> 0x0D" "0x0D \<notin> set a" by auto
  with Cons.IH show ?case by (simp add: split_crlf_Cons del: split_crlf.simps)
qed

lemma split_crlf_single: "0x0D \<notin> set a \<Longrightarrow> split_crlf a = [a]"
  using split_crlf_lit_append [of a "[]"] by simp

lemma split_crlf_sep: "split_crlf (x @ crlf @ y) = split_crlf x @ split_crlf y"
proof (induction x rule: split_crlf.induct)
  case 1
  then show ?case by (simp add: crlf_def)
next
  case (2 c)
  then show ?case by (simp add: crlf_def)
next
  case (3 c d cs)
  show ?case
  proof (cases "c = 0x0D \<and> d = 0x0A")
    case True
    with 3 show ?thesis by simp
  next
    case False
    obtain l ls where s: "split_crlf (d # cs) = l # ls"
      using split_crlf_nonempty [of "d # cs"] by (cases "split_crlf (d # cs)") auto
    from False 3 have "split_crlf ((d # cs) @ crlf @ y) = split_crlf (d # cs) @ split_crlf y"
      by blast
    with False s show ?thesis by auto
  qed
qed

lemma split_crlf_lines:
  "split_crlf s = l # ls \<Longrightarrow> prefix l s \<and> (\<forall>m \<in> set ls. sublist m s)"
proof (induction s arbitrary: l ls rule: split_crlf.induct)
  case 1
  then show ?case by simp
next
  case (2 c)
  then show ?case by auto
next
  case (3 c d cs)
  show ?case
  proof (cases "c = 0x0D \<and> d = 0x0A")
    case True
    obtain l' ls' where s: "split_crlf cs = l' # ls'"
      using split_crlf_nonempty [of cs] by (cases "split_crlf cs") auto
    from "3.IH"(1) [OF True s] have p: "prefix l' cs" "\<forall>m \<in> set ls'. sublist m cs" by auto
    from True s "3.prems" have e: "l = []" "ls = l' # ls'" by auto
    have "sublist m (c # d # cs)" if "m \<in> set ls" for m
    proof -
      from that e p have "sublist m cs" by (auto intro: prefix_imp_sublist)
      then show ?thesis by (simp add: sublist_Cons_right)
    qed
    with e show ?thesis by simp
  next
    case False
    obtain l' ls' where s: "split_crlf (d # cs) = l' # ls'"
      using split_crlf_nonempty [of "d # cs"] by (cases "split_crlf (d # cs)") auto
    from "3.IH"(2) [OF False s] have p: "prefix l' (d # cs)" "\<forall>m \<in> set ls'. sublist m (d # cs)" by auto
    from False s "3.prems" have e: "l = c # l'" "ls = ls'" by auto
    from p e show ?thesis by (simp add: sublist_Cons_right)
  qed
qed

lemma split_crlf_sublist:
  assumes "m \<in> set (split_crlf s)"
  shows "sublist m s"
proof -
  obtain l ls where s: "split_crlf s = l # ls"
    using split_crlf_nonempty [of s] by (cases "split_crlf s") auto
  from split_crlf_lines [OF s] assms s show ?thesis by (auto intro: prefix_imp_sublist)
qed

lemma split_crlf_join:
  "xs \<noteq> [] \<Longrightarrow> split_crlf (join crlf xs) = concat (map split_crlf xs)"
proof (induction crlf xs rule: join.induct)
  case 1
  then show ?case by simp
next
  case (2 x)
  then show ?case by simp
next
  case (3 x y ys)
  then show ?case by (simp add: split_crlf_sep del: split_crlf.simps)
qed

lemma sublist_within:
  assumes "sublist (a @ B @ z) v"
  shows "sublist B v"
proof -
  from assms obtain ps ss where "v = ps @ (a @ B @ z) @ ss" by (auto simp: sublist_def)
  then have "v = (ps @ a) @ B @ (z @ ss)" by simp
  then show ?thesis unfolding sublist_def by blast
qed

text \<open>A header entry: a literal field name that does not start with a dash, then a value.\<close>

lemma entry_lines_clean:
  assumes "a \<noteq> []" "hd a \<noteq> 0x2D" "0x0D \<notin> set a"
    and "0x0D \<notin> set v \<or> \<not> sublist B v"
  shows "js ''--'' @ B @ z \<notin> set (split_crlf (a @ v))"
proof
  let ?x = "js ''--'' @ B @ z"
  assume "?x \<in> set (split_crlf (a @ v))"
  then have "?x = a @ hd (split_crlf v) \<or> ?x \<in> set (tl (split_crlf v))"
    by (simp add: split_crlf_lit_append [OF assms(3)])
  then show False
  proof
    assume "?x = a @ hd (split_crlf v)"
    then have "hd ?x = hd (a @ hd (split_crlf v))" by simp
    with assms(1,2) show False by (simp add: js_def)
  next
    assume m: "?x \<in> set (tl (split_crlf v))"
    then have "?x \<in> set (split_crlf v)" by (meson list.set_sel(2) split_crlf_nonempty)
    then have "sublist ?x v" by (rule split_crlf_sublist)
    then have "sublist B v" by (rule sublist_within)
    with assms(4) have "0x0D \<notin> set v" by simp
    then have "tl (split_crlf v) = []" by (simp add: split_crlf_single)
    with m show False by simp
  qed
qed

lemma text_lines_clean:
  assumes "\<not> sublist B v"
  shows "js ''--'' @ B @ z \<notin> set (concat (map split_crlf (filter_Boolean [v])))"
proof
  assume "js ''--'' @ B @ z \<in> set (concat (map split_crlf (filter_Boolean [v])))"
  then have "js ''--'' @ B @ z \<in> set (split_crlf v)"
    by (auto simp: filter_Boolean_def split: if_splits)
  then have "sublist (js ''--'' @ B @ z) v" by (rule split_crlf_sublist)
  then have "sublist B v" by (rule sublist_within)
  with assms show False by simp
qed

lemma text_lines_filter: "concat (map split_crlf (filter_Boolean [v])) = text_lines v"
  by (simp add: filter_Boolean_def truthy_def text_lines_def)

lemma validateEmail_no_cr:
  assumes "validateEmail a"
  shows "0x0D \<notin> set a"
proof -
  from assms obtain l d1 d2 where a: "a = l @ [0x40] @ d1 @ [0x2E] @ d2"
    and ok: "list_all addr_char l" "list_all addr_char d1" "list_all addr_char d2"
    unfolding validateEmail_regex email_regex_language_def by blast
  have "\<not> addr_char 0x0D" by (simp add: addr_char_def is_space_def)
  with ok have "0x0D \<notin> set l \<union> set d1 \<union> set d2" by (auto simp: list_all_iff)
  with a show ?thesis by simp
qed

lemma validateEmailArray_valid:
  "validateEmailArray xs = Inr () \<Longrightarrow> \<forall>a \<in> set xs. validateEmail a"
  by (induction xs) (auto split: if_splits)

lemma set_join: "set (join sep xs) \<subseteq> set sep \<union> \<Union> (set ` set xs)"
  by (induction sep xs rule: join.induct) auto

lemma join_addresses_no_cr:
  assumes "validateEmailArray xs = Inr ()"
  shows "0x0D \<notin> set (join (js '', '') xs)"
proof -
  have "0x0D \<notin> set (js '', '')" by (simp add: js_def)
  moreover have "\<forall>a \<in> set xs. 0x0D \<notin> set a"
    using validateEmailArray_valid [OF assms] validateEmail_no_cr by blast
  ultimately show ?thesis using set_join [of "js '', ''" xs] by auto
qed

lemma validate_recipients_parts:
  assumes "validate_recipients p = Inr ()"
  shows "validateEmailArray (to p) = Inr ()"
    "cc p = Some xs \<Longrightarrow> validateEmailArray xs = Inr ()"
    "bcc p = Some ys \<Longrightarrow> validateEmailArray ys = Inr ()"
  using assms by (auto simp: validate_recipients_def split: sum.splits option.splits)

lemma b64_alphabet_no_cr: "\<forall>c \<in> set b64_alphabet. (of_char c :: nat) \<noteq> 13"
  by (simp add: b64_alphabet_def)

lemma b64_char_no_cr:
  assumes "i < 64"
  shows "b64_char i \<noteq> 0x0D"
proof -
  have "b64_alphabet ! i \<in> set b64_alphabet" using assms by (simp add: b64_alphabet_length)
  then have "unat (b64_char i) \<noteq> 13" using b64_alphabet_no_cr by (simp add: unat_b64_char)
  then show ?thesis by auto
qed

lemma base64_no_cr:
  assumes "\<forall>b \<in> set bs. b < 256"
  shows "0x0D \<notin> set (toString_base64 bs)"
  using assms
proof (induction bs rule: toString_base64.induct)
  case 1
  then show ?case by simp
next
  case (2 a)
  then have a: "a < 256" by simp
  show ?case using sextet_bounds [OF a a a] by (simp add: b64_char_no_cr)
next
  case (3 a b)
  then have a: "a < 256" "b < 256" by simp_all
  show ?case
    using sextet_bounds [OF a a(1)] sextet_bounds [OF a(2) a] by (simp add: b64_char_no_cr)
next
  case (4 a b c rest)
  then have a: "a < 256" "b < 256" "c < 256" and r: "\<forall>x \<in> set rest. x < 256" by simp_all
  show ?case using sextet_bounds [OF a] "4.IH" [OF r] by (simp add: b64_char_no_cr)
qed

lemma encodeHeader_clean:
  assumes "\<not> sublist B s"
  shows "0x0D \<notin> set (encodeHeader s) \<or> \<not> sublist B (encodeHeader s)"
proof (cases "non_ascii s")
  case True
  then have "encodeHeader s = js ''=?UTF-8?B?'' @ toString_base64 (Buffer_from s) @ js ''?=''"
    by (simp add: encodeHeader_def)
  moreover have "0x0D \<notin> set (toString_base64 (Buffer_from s))"
    by (rule base64_no_cr) (rule Buffer_from_bytes)
  ultimately show ?thesis by (simp add: js_def)
next
  case False
  with assms show ?thesis by (simp add: encodeHeader_def)
qed

lemma base36_no_cr: "base36_digit c \<Longrightarrow> c \<noteq> 0x0D"
  by (auto simp: base36_digit_def)

lemma boundary_no_cr:
  assumes "list_all base36_digit (random_suffix pf)"
  shows "0x0D \<notin> set (boundary_of pf)"
  using assms base36_no_cr by (auto simp: boundary_of_def js_def list_all_iff)

lemma literal_lines:
  "split_crlf (js ''Content-Type: text/plain; charset=UTF-8'') = [js ''Content-Type: text/plain; charset=UTF-8'']"
  "split_crlf (js ''Content-Type: text/html; charset=UTF-8'') = [js ''Content-Type: text/html; charset=UTF-8'']"
  "split_crlf (js ''Content-Transfer-Encoding: 7bit'') = [js ''Content-Transfer-Encoding: 7bit'']"
  by (rule split_crlf_single, simp add: js_def)+

lemma header_entries_clean:
  assumes v: "validate_recipients p = Inr ()"
    and s: "\<not> sublist B (subject p)"
    and r: "\<forall>v. inReplyTo p = Some v \<longrightarrow> \<not> sublist B v"
  shows "js ''--'' @ B @ z \<notin> set (concat (map split_crlf (filter_Boolean
          [js ''From: me'',
           js ''To: '' @ join (js '', '') (to p),
           (case cc p of Some xs \<Rightarrow> js ''Cc: '' @ join (js '', '') xs | None \<Rightarrow> []),
           (case bcc p of Some xs \<Rightarrow> js ''Bcc: '' @ join (js '', '') xs | None \<Rightarrow> []),
           js ''Subject: '' @ encodeHeader (subject p),
           (if truthy_opt (inReplyTo p) then js ''In-Reply-To: '' @ the (inReplyTo p) else []),
           (if truthy_opt (inReplyTo p) then js ''References: '' @ the (inReplyTo p) else []),
           js ''MIME-Version: 1.0''])))"
proof -
  let ?x = "js ''--'' @ B @ z"
  have nil: "?x \<notin> set (split_crlf [])" by (simp add: js_def)
  have e1: "?x \<notin> set (split_crlf (js ''From: me''))"
    using entry_lines_clean [of "js ''From: me''" "[]" B z] by (simp add: js_def)
  have e2: "?x \<notin> set (split_crlf (js ''To: '' @ join (js '', '') (to p)))"
    using join_addresses_no_cr [OF validate_recipients_parts(1) [OF v]]
    by (intro entry_lines_clean) (simp_all add: js_def)
  have e3: "?x \<notin> set (split_crlf (case cc p of Some xs \<Rightarrow> js ''Cc: '' @ join (js '', '') xs | None \<Rightarrow> []))"
  proof (cases "cc p")
    case None
    with nil show ?thesis by simp
  next
    case (Some xs)
    have "?x \<notin> set (split_crlf (js ''Cc: '' @ join (js '', '') xs))"
      using join_addresses_no_cr [OF validate_recipients_parts(2) [OF v Some]]
      by (intro entry_lines_clean) (simp_all add: js_def)
    with Some show ?thesis by simp
  qed
  have e4: "?x \<notin> set (split_crlf (case bcc p of Some xs \<Rightarrow> js ''Bcc: '' @ join (js '', '') xs | None \<Rightarrow> []))"
  proof (cases "bcc p")
    case None
    with nil show ?thesis by simp
  next
    case (Some xs)
    have "?x \<notin> set (split_crlf (js ''Bcc: '' @ join (js '', '') xs))"
      using join_addresses_no_cr [OF validate_recipients_parts(3) [OF v Some]]
      by (intro entry_lines_clean) (simp_all add: js_def)
    with Some show ?thesis by simp
  qed
  have e5: "?x \<notin> set (split_crlf (js ''Subject: '' @ encodeHeader (subject p)))"
    using encodeHeader_clean [OF s]
    by (intro entry_lines_clean) (simp_all add: js_def)
  have irt: "\<not> sublist B (the (inReplyTo p))" if "truthy_opt (inReplyTo p)"
    using that r by (cases "inReplyTo p") (auto simp: truthy_opt_def)
  have e6: "?x \<notin> set (split_crlf (if truthy_opt (inReplyTo p) then js ''In-Reply-To: '' @ the (inReplyTo p) else []))"
  proof (cases "truthy_opt (inReplyTo p)")
    case True
    have "?x \<notin> set (split_crlf (js ''In-Reply-To: '' @ the (inReplyTo p)))"
      using irt [OF True] by (intro entry_lines_clean) (simp_all add: js_def)
    with True show ?thesis by simp
  next
    case False
    with nil show ?thesis by simp
  qed
  have e7: "?x \<notin> set (split_crlf (if truthy_opt (inReplyTo p) then js ''References: '' @ the (inReplyTo p) else []))"
  proof (cases "truthy_opt (inReplyTo p)")
    case True
    have "?x \<notin> set (split_crlf (js ''References: '' @ the (inReplyTo p)))"
      using irt [OF True] by (intro entry_lines_clean) (simp_all add: js_def)
    with True show ?thesis by simp
  next
    case False
    with nil show ?thesis by simp
  qed
  have e8: "?x \<notin> set (split_crlf (js ''MIME-Version: 1.0''))"
    using entry_lines_clean [of "js ''MIME-Version: 1.0''" "[]" B z] by (simp add: js_def)
  have "\<forall>e \<in> set (filter_Boolean
          [js ''From: me'',
           js ''To: '' @ join (js '', '') (to p),
           (case cc p of Some xs \<Rightarrow> js ''Cc: '' @ join (js '', '') xs | None \<Rightarrow> []),
           (case bcc p of Some xs \<Rightarrow> js ''Bcc: '' @ join (js '', '') xs | None \<Rightarrow> []),
           js ''Subject: '' @ encodeHeader (subject p),
           (if truthy_opt (inReplyTo p) then js ''In-Reply-To: '' @ the (inReplyTo p) else []),
           (if truthy_opt (inReplyTo p) then js ''References: '' @ the (inReplyTo p) else []),
           js ''MIME-Version: 1.0'']). ?x \<notin> set (split_crlf e)"
    unfolding filter_Boolean_def set_filter using e1 e2 e3 e4 e5 e6 e7 e8
    by (simp only: set_simps) blast
  then show ?thesis by simp
qed

text \<open>
  Claim C7, amended. Take a valid request whose subject, In-Reply-To value and two body
  texts do not contain the boundary token. Read line by line, the document of
  \<open>buildMultipartEmail\<close> then has exactly two delimiter lines \<open>--token\<close>, with the
  header declaring the token before the first. The first delimiter is followed by the
  text/plain Content-Type and Content-Transfer-Encoding lines and then the lines of the
  plain text; the second by the text/html Content-Type and Content-Transfer-Encoding
  lines and then the lines of the HTML text; the last line is the closing delimiter
  \<open>--token--\<close>, which occurs nowhere else. Whether blank lines stand around the two
  texts is left open (\<open>X1\<close>, \<open>Y1\<close>, \<open>X2\<close>, \<open>Y2\<close>).
\<close>

theorem buildMultipartEmail_two_parts:
  assumes v: "validate_recipients p = Inr ()"
    and rnd: "list_all base36_digit (random_suffix pf)"
    and s: "\<not> sublist (boundary_of pf) (subject p)"
    and r: "\<forall>v. inReplyTo p = Some v \<longrightarrow> \<not> sublist (boundary_of pf) v"
    and b: "\<not> sublist (boundary_of pf) (body p)"
    and h: "\<forall>h. htmlBody p = Some h \<longrightarrow> \<not> sublist (boundary_of pf) h"
  shows "\<exists>doc H X1 Y1 X2 Y2.
           buildMultipartEmail pf p = Inr doc
           \<and> split_crlf doc
               = H @ [js ''--'' @ boundary_of pf,
                      js ''Content-Type: text/plain; charset=UTF-8'',
                      js ''Content-Transfer-Encoding: 7bit'']
                   @ X1 @ text_lines (body p) @ Y1
                   @ [js ''--'' @ boundary_of pf,
                      js ''Content-Type: text/html; charset=UTF-8'',
                      js ''Content-Transfer-Encoding: 7bit'']
                   @ X2 @ text_lines (htmlBody_or_body p) @ Y2
                   @ [js ''--'' @ boundary_of pf @ js ''--'']
           \<and> set (X1 @ Y1 @ X2 @ Y2) \<subseteq> {[]}
           \<and> js ''Content-Type: multipart/alternative; boundary='' @ dquote @ boundary_of pf @ dquote
               \<in> set H
           \<and> js ''--'' @ boundary_of pf
               \<notin> set (H @ text_lines (body p) @ text_lines (htmlBody_or_body p))
           \<and> js ''--'' @ boundary_of pf @ js ''--''
               \<notin> set (H @ text_lines (body p) @ text_lines (htmlBody_or_body p))
           \<and> count_list (split_crlf doc) (js ''--'' @ boundary_of pf) = 2
           \<and> count_list (split_crlf doc) (js ''--'' @ boundary_of pf @ js ''--'') = 1"
proof -
  define B where "B = boundary_of pf"
  define d where "d = js ''--'' @ B"
  define c where "c = js ''--'' @ B @ js ''--''"
  define CTm where "CTm = js ''Content-Type: multipart/alternative; boundary='' @ dquote @ B @ dquote"
  define CTp where "CTp = js ''Content-Type: text/plain; charset=UTF-8''"
  define CTh where "CTh = js ''Content-Type: text/html; charset=UTF-8''"
  define CTE where "CTE = js ''Content-Transfer-Encoding: 7bit''"
  define Hs where "Hs = filter_Boolean
          [js ''From: me'',
           js ''To: '' @ join (js '', '') (to p),
           (case cc p of Some xs \<Rightarrow> js ''Cc: '' @ join (js '', '') xs | None \<Rightarrow> []),
           (case bcc p of Some xs \<Rightarrow> js ''Bcc: '' @ join (js '', '') xs | None \<Rightarrow> []),
           js ''Subject: '' @ encodeHeader (subject p),
           (if truthy_opt (inReplyTo p) then js ''In-Reply-To: '' @ the (inReplyTo p) else []),
           (if truthy_opt (inReplyTo p) then js ''References: '' @ the (inReplyTo p) else []),
           js ''MIME-Version: 1.0'']"
  define H where "H = concat (map split_crlf Hs) @ [CTm]"
  define P1 where "P1 = [CTp, CTE] @ text_lines (body p)"
  define P2 where "P2 = [CTh, CTE] @ text_lines (htmlBody_or_body p)"
  define doc where "doc = join crlf (Hs @ [CTm] @ [d, CTp, CTE] @ filter_Boolean [body p]
        @ [d, CTh, CTE] @ filter_Boolean [htmlBody_or_body p] @ [c])"
  have built: "buildMultipartEmail pf p = Inr doc"
    unfolding doc_def Hs_def CTm_def CTp_def CTh_def CTE_def d_def c_def B_def
    by (rule buildMultipartEmail_structure [OF v])
  have crB: "0x0D \<notin> set B" unfolding B_def by (rule boundary_no_cr [OF rnd])
  have cr: "0x0D \<notin> set d" "0x0D \<notin> set c" "0x0D \<notin> set CTm"
    using crB by (simp_all add: d_def c_def CTm_def js_def dquote_def)
  have single: "split_crlf d = [d]" "split_crlf c = [c]" "split_crlf CTm = [CTm]"
    by (rule split_crlf_single [OF cr(1)], rule split_crlf_single [OF cr(2)],
        rule split_crlf_single [OF cr(3)])
  have lits: "split_crlf CTp = [CTp]" "split_crlf CTh = [CTh]" "split_crlf CTE = [CTE]"
    unfolding CTp_def CTh_def CTE_def by (rule literal_lines)+
  have "split_crlf doc = concat (map split_crlf (Hs @ [CTm] @ [d, CTp, CTE] @ filter_Boolean [body p]
        @ [d, CTh, CTE] @ filter_Boolean [htmlBody_or_body p] @ [c]))"
    unfolding doc_def by (rule split_crlf_join) simp
  also have "\<dots> = H @ [d] @ P1 @ [d] @ P2 @ [c]"
    by (simp add: single lits text_lines_filter H_def P1_def P2_def del: split_crlf.simps)
  finally have lines: "split_crlf doc = H @ [d] @ P1 @ [d] @ P2 @ [c]" .
  have hb: "\<not> sublist B (htmlBody_or_body p)"
    using b h unfolding B_def htmlBody_or_body_def
    by (cases "htmlBody p") (auto simp: truthy_opt_def)
  have clean: "js ''--'' @ B @ z \<notin> set (H @ P1 @ P2)" for z
  proof -
    have "js ''--'' @ B @ z \<notin> set (concat (map split_crlf Hs))"
      unfolding Hs_def using s r unfolding B_def by (intro header_entries_clean [OF v]) 
    moreover have "js ''--'' @ B @ z \<noteq> CTm" "js ''--'' @ B @ z \<noteq> CTp" "js ''--'' @ B @ z \<noteq> CTh"
      "js ''--'' @ B @ z \<noteq> CTE"
      by (simp_all add: CTm_def CTp_def CTh_def CTE_def js_def)
    moreover have "js ''--'' @ B @ z \<notin> set (text_lines (body p))"
      using text_lines_clean [of B "body p" z] b unfolding B_def by (simp add: text_lines_filter)
    moreover have "js ''--'' @ B @ z \<notin> set (text_lines (htmlBody_or_body p))"
      using text_lines_clean [OF hb, of z] by (simp add: text_lines_filter)
    ultimately show ?thesis by (simp add: H_def P1_def P2_def)
  qed
  have dn: "d \<notin> set (H @ P1 @ P2)" using clean [of "[]"] by (simp add: d_def)
  have cn: "c \<notin> set (H @ P1 @ P2)" using clean [of "js ''--''"] by (simp add: c_def)
  have dc: "d \<noteq> c" by (simp add: d_def c_def js_def)
  have "count_list H d = 0" "count_list P1 d = 0" "count_list P2 d = 0"
    using dn by (simp_all add: count_list_0_iff)
  then have cnt: "count_list (split_crlf doc) d = 2"
    using dc by (simp add: lines)
  have "count_list H c = 0" "count_list P1 c = 0" "count_list P2 c = 0"
    using cn by (simp_all add: count_list_0_iff)
  then have cnt2: "count_list (split_crlf doc) c = 1"
    using dc by (simp add: lines)
  have shape: "split_crlf doc
      = H @ [d, CTp, CTE] @ [] @ text_lines (body p) @ []
          @ [d, CTh, CTE] @ [] @ text_lines (htmlBody_or_body p) @ [] @ [c]"
    by (simp add: lines P1_def P2_def)
  have blank: "set ([] @ [] @ [] @ ([] :: jsstring list)) \<subseteq> {[]}" by simp
  have "CTm \<in> set H" by (simp add: H_def)
  moreover have "d \<notin> set (H @ text_lines (body p) @ text_lines (htmlBody_or_body p))"
    "c \<notin> set (H @ text_lines (body p) @ text_lines (htmlBody_or_body p))"
    using dn cn by (simp_all add: P1_def P2_def)
  ultimately show ?thesis
    using built shape blank cnt cnt2
    unfolding d_def c_def CTm_def CTp_def CTh_def CTE_def B_def
    by blast
qed

theorem buildMultipartEmail_two_parts_witness:
  "validate_recipients p_mp = Inr ()
   \<and> list_all base36_digit (random_suffix pf_ex)
   \<and> \<not> sublist (boundary_of pf_ex) (subject p_mp)
   \<and> inReplyTo p_mp = None
   \<and> \<not> sublist (boundary_of pf_ex) (body p_mp)
   \<and> htmlBody p_mp = Some (js ''<p>Hello</p>'')
   \<and> \<not> sublist (boundary_of pf_ex) (js ''<p>Hello</p>'')
   \<and> (\<exists>doc H X1 Y1 X2 Y2.
           buildMultipartEmail pf_ex p_mp = Inr doc
           \<and> split_crlf doc
               = H @ [js ''--'' @ boundary_of pf_ex,
                      js ''Content-Type: text/plain; charset=UTF-8'',
                      js ''Content-Transfer-Encoding: 7bit'']
                   @ X1 @ text_lines (body p_mp) @ Y1
                   @ [js ''--'' @ boundary_of pf_ex,
                      js ''Content-Type: text/html; charset=UTF-8'',
                      js ''Content-Transfer-Encoding: 7bit'']
                   @ X2 @ text_lines (htmlBody_or_body p_mp) @ Y2
                   @ [js ''--'' @ boundary_of pf_ex @ js ''--'']
           \<and> set (X1 @ Y1 @ X2 @ Y2) \<subseteq> {[]}
           \<and> js ''Content-Type: multipart/alternative; boundary='' @ dquote @ boundary_of pf_ex @ dquote
               \<in> set H
           \<and> js ''--'' @ boundary_of pf_ex
               \<notin> set (H @ text_lines (body p_mp) @ text_lines (htmlBody_or_body p_mp))
           \<and> js ''--'' @ boundary_of pf_ex @ js ''--''
               \<notin> set (H @ text_lines (body p_mp) @ text_lines (htmlBody_or_body p_mp))
           \<and> count_list (split_crlf doc) (js ''--'' @ boundary_of pf_ex) = 2
           \<and> count_list (split_crlf doc) (js ''--'' @ boundary_of pf_ex @ js ''--'') = 1)"
proof -
  have v: "validate_recipients p_mp = Inr ()"
    by (simp add: p_mp_def p_ex_def eval_defs)
  have rnd: "list_all base36_digit (random_suffix pf_ex)"
    by (simp add: pf_ex_def js_def base36_digit_def)
  have len: "length (boundary_of pf_ex) = 16"
    by (simp add: boundary_of_def pf_ex_def js_def)
  have short: "\<not> sublist (boundary_of pf_ex) t" if "length t < 16" for t
    using that len sublist_length_le [of "boundary_of pf_ex" t] by auto
  have s: "\<not> sublist (boundary_of pf_ex) (subject p_mp)"
    by (rule short) (simp add: p_mp_def p_ex_def js_def)
  have r: "\<forall>v. inReplyTo p_mp = Some v \<longrightarrow> \<not> sublist (boundary_of pf_ex) v"
    by (simp add: p_mp_def p_ex_def)
  have b: "\<not> sublist (boundary_of pf_ex) (body p_mp)"
    by (rule short) (simp add: p_mp_def p_ex_def js_def)
  have h0: "\<not> sublist (boundary_of pf_ex) (js ''<p>Hello</p>'')"
    by (rule short) (simp add: js_def)
  have hb: "htmlBody p_mp = Some (js ''<p>Hello</p>'')" "inReplyTo p_mp = None"
    by (simp_all add: p_mp_def p_ex_def)
  from h0 hb have h: "\<forall>h. htmlBody p_mp = Some h \<longrightarrow> \<not> sublist (boundary_of pf_ex) h"
    by simp
  show ?thesis
    using v rnd s b h0 hb buildMultipartEmail_two_parts [OF v rnd s r b h] by blast
qed

end
